theory Spec2Isabelle
  imports Main "HOL-Library.Word" "HOL-Library.Signed_Division" "HOL-Library.Monad_Syntax"
begin

unbundle bit_operations_syntax

section \<open>The data of primes.c\<close>

text \<open>
  A C \<open>char\<close> is eight bits and signed on the program's target (the driver compares
  a \<open>char\<close> with \<open>-1\<close>); it is an \<open>8 word\<close>, read through \<open>sint\<close> wherever C
  promotes it to \<open>int\<close>. The buffer returned by \<open>calloc\<close> is a list of bytes; a
  \<open>char *\<close> into it is the byte offset from \<open>start\<close>, and the \<open>long\<close> counter
  \<open>pointind\<close>, which only ever counts bytes upwards from 0, is a natural number.
  Pointer and \<open>long\<close> arithmetic is taken without overflow. In the calls that
  \<open>findPrimes\<close> and \<open>printPrimes\<close> make, the largest value computed is about eight
  times the size of the buffer, so none occurs for a buffer of fewer than \<open>2 ^ 60\<close>
  bytes. Called on its own, \<open>eliminateMults\<close> computes
  \<open>8 * pointind\<^sup>2 + 2 * pointind * ind\<close> in \<open>long\<close>; what is proved of it for arbitrary
  \<open>pointind\<close> carries the hypothesis that this value is below \<open>2 ^ 63\<close>.
\<close>

type_synonym byte = "8 word"

definition CHAR_BIT :: int where
  "CHAR_BIT = 8"

definition SPECIAL_ONE :: int where
  "SPECIAL_ONE = 128"

definition POWER :: int where
  "POWER = 20"

text \<open>
  The three variables \<open>current\<close>, \<open>pointind\<close> and \<open>ind\<close> that \<open>searchForZero\<close>
  updates through pointers.
\<close>

record cursor =
  current :: nat
  pointind :: nat
  ind :: byte

text \<open>
  Reading \<open>*p\<close>. Inside the buffer the byte read is the buffer's; past its end C
  gives no value, and the model takes whatever lies there from the parameter
  \<open>junk\<close>, so that every theorem about a run holds for any contents of the memory
  behind the buffer.
\<close>

definition rd :: "(nat \<Rightarrow> byte) \<Rightarrow> byte list \<Rightarrow> nat \<Rightarrow> byte" where
  "rd junk buf p = (if p < length buf then buf ! p else junk p)"

text \<open>A memory that holds zero bytes wherever it is read behind the buffer.\<close>

definition zeroes :: "nat \<Rightarrow> byte" where
  "zeroes p = 0"

text \<open>
  The bit of the number \<open>n\<close>: byte \<open>n div 8\<close>, bit \<open>n mod 8\<close> counted from the
  most significant one. \<open>bit_at\<close> looks into the buffer, \<open>bit_rd\<close> reads as the
  program does.
\<close>

definition bit_at :: "byte list \<Rightarrow> nat \<Rightarrow> bool" where
  "bit_at buf n \<longleftrightarrow> bit (buf ! (n div 8)) (7 - n mod 8)"

definition bit_rd :: "(nat \<Rightarrow> byte) \<Rightarrow> byte list \<Rightarrow> nat \<Rightarrow> bool" where
  "bit_rd junk buf n \<longleftrightarrow> bit (rd junk buf (n div 8)) (7 - n mod 8)"

text \<open>The cursor that stands on the number \<open>n\<close>, and the number a cursor stands on.\<close>

definition cursor_of :: "nat \<Rightarrow> cursor" where
  "cursor_of n = \<lparr>current = n div 8, pointind = n div 8, ind = of_nat (n mod 8)\<rparr>"

definition number_of :: "cursor \<Rightarrow> nat" where
  "number_of c = 8 * pointind c + nat (sint (ind c))"

definition live :: "cursor \<Rightarrow> bool" where
  "live c \<longleftrightarrow> 0 \<le> sint (ind c) \<and> sint (ind c) \<le> 7 \<and> current c = pointind c"

section \<open>setToOne\<close>

text \<open>
  \<open>(*current) |= (SPECIAL_ONE >> ind)\<close>: both operands are promoted to \<open>int\<close>, the
  result is stored back into the \<open>char\<close>.
\<close>

definition setToOne :: "byte list \<Rightarrow> nat \<Rightarrow> byte \<Rightarrow> byte list" where
  "setToOne buf p i =
     buf[p := word_of_int (sint (buf ! p) OR drop_bit (nat (sint i)) SPECIAL_ONE)]"

section \<open>searchForZero\<close>

text \<open>
  The step to the next number, written out twice in the source (lines 226 to 232 and
  257 to 263): \<open>ind++\<close>, and on \<open>ind >= CHAR_BIT\<close> the carry into the byte pointer.
\<close>

definition advance :: "cursor \<Rightarrow> cursor" where
  "advance c =
     (let i = ind c + 1 in
      if CHAR_BIT \<le> sint i
      then \<lparr>current = current c + 1, pointind = pointind c + 1, ind = i - 8\<rparr>
      else c\<lparr>ind := i\<rparr>)"

text \<open>
  \<open>temp = (**current) << (*ind); temp &= SPECIAL_ONE\<close>: the shift and the mask are
  computed on \<open>int\<close> and each assignment narrows to \<open>char\<close>. A byte with its
  first bit set is a negative \<open>int\<close>; its left shift is taken as the two's-complement
  shift that the target's compilers perform.
\<close>

definition temp_of :: "byte \<Rightarrow> byte \<Rightarrow> byte" where
  "temp_of b i =
     (let temp = (word_of_int (push_bit (nat (sint i)) (sint b)) :: byte)
      in word_of_int (sint temp AND SPECIAL_ONE))"

partial_function (option)
  searchLoop :: "(nat \<Rightarrow> byte) \<Rightarrow> byte list \<Rightarrow> nat \<Rightarrow> cursor \<Rightarrow> cursor option"
where
  "searchLoop junk buf e c =
     (if current c < e
      then if temp_of (rd junk buf (current c)) (ind c) = 0
           then Some c
           else searchLoop junk buf e (advance c)
      else Some (c\<lparr>ind := - 1\<rparr>))"

declare searchLoop.simps [code]

definition searchForZero :: "(nat \<Rightarrow> byte) \<Rightarrow> byte list \<Rightarrow> cursor \<Rightarrow> nat \<Rightarrow> cursor option" where
  "searchForZero junk buf c e = searchLoop junk buf e (advance c)"

section \<open>eliminateMults\<close>

text \<open>
  One pass of the body of the \<open>while\<close> loop: mark the current number, step by
  \<open>p = 8 * pointind + ind\<close>, carry once.
\<close>

definition elimStep :: "nat \<Rightarrow> byte \<Rightarrow> byte list \<times> nat \<times> byte \<Rightarrow> byte list \<times> nat \<times> byte" where
  "elimStep q r s =
     (case s of (buf, cur, currind) \<Rightarrow>
        let buf' = setToOne buf cur currind;
            cur' = cur + q;
            currind' = currind + r
        in if CHAR_BIT \<le> sint currind'
           then (buf', cur' + 1, currind' - 8)
           else (buf', cur', currind'))"

partial_function (option)
  elimLoop :: "nat \<Rightarrow> byte \<Rightarrow> nat \<Rightarrow> byte list \<times> nat \<times> byte \<Rightarrow> byte list option"
where
  "elimLoop q r e s =
     (if fst (snd s) < e
      then elimLoop q r e (elimStep q r s)
      else Some (fst s))"

declare elimLoop.simps [code]

text \<open>
  The cursor of \<open>p\<^sup>2\<close>: \<open>8 * pointind\<^sup>2 + 2 * pointind * ind\<close> whole bytes and
  \<open>ind\<^sup>2\<close> bits, the latter normalised once by division.
\<close>

definition elimInit :: "nat \<Rightarrow> byte \<Rightarrow> nat \<times> byte" where
  "elimInit q r =
     (let cur = nat (CHAR_BIT * int q * int q + 2 * int q * sint r);
          currind = (word_of_int (sint r * sint r) :: byte)
      in if CHAR_BIT \<le> sint currind
         then (cur + nat (sint currind sdiv CHAR_BIT), word_of_int (sint currind smod CHAR_BIT))
         else (cur, currind))"

definition eliminateMults :: "byte list \<Rightarrow> nat \<Rightarrow> byte \<Rightarrow> nat \<Rightarrow> byte list option" where
  "eliminateMults buf q r e = elimLoop q r e (buf, elimInit q r)"

section \<open>findPrimes\<close>

partial_function (option)
  findLoop :: "(nat \<Rightarrow> byte) \<Rightarrow> nat \<Rightarrow> nat \<Rightarrow> byte list \<Rightarrow> cursor \<Rightarrow> byte list option"
where
  "findLoop junk endsqrt e buf c =
     (if sint (ind c) \<noteq> - 1
      then do {
        buf' \<leftarrow> eliminateMults buf (pointind c) (ind c) e;
        c' \<leftarrow> searchForZero junk buf' c endsqrt;
        findLoop junk endsqrt e buf' c'
      }
      else Some buf)"

declare findLoop.simps [code]

definition findPrimes :: "(nat \<Rightarrow> byte) \<Rightarrow> byte list \<Rightarrow> nat \<Rightarrow> nat \<Rightarrow> byte list option" where
  "findPrimes junk buf endsqrt e =
     (let buf1 = setToOne buf 0 0;
          buf2 = setToOne buf1 0 1
      in findLoop junk endsqrt e buf2 \<lparr>current = 0, pointind = 0, ind = 2\<rparr>)"

section \<open>printPrimes\<close>

text \<open>
  \<open>fprintf\<close> with \<open>%ld\<close> or \<open>%d\<close>: the decimal digits of the value, after a minus sign
  when it is negative.
\<close>

fun digits :: "nat \<Rightarrow> string" where
  "digits n = (if n < 10 then [char_of (48 + n)] else digits (n div 10) @ [char_of (48 + n mod 10)])"

declare digits.simps [simp del]

definition fmt_int :: "int \<Rightarrow> string" where
  "fmt_int i = (if i < 0 then CHR ''-'' # digits (nat (- i)) else digits (nat i))"

definition newline :: string where
  "newline = [CHR 0x0A]"

text \<open>The text written to the freshly opened file is the result.\<close>

partial_function (option)
  printLoop :: "(nat \<Rightarrow> byte) \<Rightarrow> byte list \<Rightarrow> nat \<Rightarrow> string \<Rightarrow> cursor \<Rightarrow> string option"
where
  "printLoop junk buf e file c =
     (if sint (ind c) \<noteq> - 1
      then do {
        c' \<leftarrow> searchForZero junk buf c e;
        printLoop junk buf e
          (file @ fmt_int (CHAR_BIT * int (pointind c) + sint (ind c)) @ newline) c'
      }
      else Some file)"

declare printLoop.simps [code]

definition printPrimes :: "(nat \<Rightarrow> byte) \<Rightarrow> byte list \<Rightarrow> nat \<Rightarrow> string option" where
  "printPrimes junk buf e =
     do {
       c \<leftarrow> searchForZero junk buf \<lparr>current = 0, pointind = 0, ind = 0\<rparr> e;
       printLoop junk buf e [] c
     }"

section \<open>main\<close>

text \<open>
  \<open>atoi\<close> is the C library's. On the program's target it is
  \<open>(int) strtol (nptr, NULL, 10)\<close>: \<open>strtol\<close> skips leading white space, takes an
  optional sign and then the decimal digits up to the first character that is not
  one, and gives the number read, or the nearest end of \<open>long\<close> when the number is
  outside \<open>long\<close>; the conversion to \<open>int\<close> keeps the low 32 bits.
  \<open>decimal_value\<close> is the number read, before any bound.
\<close>

definition isspace :: "char \<Rightarrow> bool" where
  "isspace c \<longleftrightarrow> c \<in> set [CHR '' '', CHR 0x09, CHR 0x0A, CHR 0x0B, CHR 0x0C, CHR 0x0D]"

definition isdigit :: "char \<Rightarrow> bool" where
  "isdigit c \<longleftrightarrow> 48 \<le> (of_char c :: nat) \<and> (of_char c :: nat) \<le> 57"

fun decimal_digits :: "int \<Rightarrow> string \<Rightarrow> int" where
  "decimal_digits acc [] = acc"
| "decimal_digits acc (c # cs) =
     (if isdigit c then decimal_digits (10 * acc + (of_char c - 48)) cs else acc)"

definition decimal_value :: "string \<Rightarrow> int" where
  "decimal_value s =
     (case dropWhile isspace s of
        [] \<Rightarrow> 0
      | c # cs \<Rightarrow>
          if c = CHR ''-'' then - decimal_digits 0 cs
          else if c = CHR ''+'' then decimal_digits 0 cs
          else decimal_digits 0 (c # cs))"

definition LONG_MIN :: int where
  "LONG_MIN = - (2 ^ 63)"

definition LONG_MAX :: int where
  "LONG_MAX = 2 ^ 63 - 1"

definition strtol :: "string \<Rightarrow> int" where
  "strtol s =
     (let v = decimal_value s
      in if v < LONG_MIN then LONG_MIN else if LONG_MAX < v then LONG_MAX else v)"

definition atoi :: "string \<Rightarrow> int" where
  "atoi s = sint (word_of_int (strtol s) :: 32 word)"

text \<open>
  \<open>(int)sqrt(max)\<close>: the square root is computed in floating point and truncated. For
  the powers of two that \<open>max\<close> can be, the truncated value is the integer square
  root, which is what the model takes.
\<close>

primrec isqrt :: "nat \<Rightarrow> nat" where
  "isqrt 0 = 0"
| "isqrt (Suc n) = (let r = isqrt n in if Suc r * Suc r \<le> Suc n then Suc r else r)"

text \<open>
  What a run leaves behind: the text on the error stream, the contents of
  \<open>./primes.txt\<close> when the run wrote the file, and the exit status.
\<close>

record outcome =
  stderr :: string
  primes_txt :: "string option"
  status :: int

text \<open>
  The first part of \<open>main\<close> (lines 52 to 67): the power chosen for \<open>argv\<close> (the
  program name first), and what this part writes to the error stream.
\<close>

definition choose_power :: "string list \<Rightarrow> int \<times> string" where
  "choose_power argv =
     (if length argv \<noteq> 2 then (POWER, [])
      else let power = atoi (argv ! 1)
           in if power < 3 then (POWER, ''Invalid value for power'' @ newline)
              else (power, []))"

text \<open>
  The rest of \<open>main\<close> (lines 69 to 112), with \<open>pwr\<close> the value of \<open>power\<close> and
  \<open>err\<close> the text already on the error stream. \<open>calloc_ok\<close> and \<open>fopen_ok\<close> say whether the allocation and the opening
  of the file succeed. The result is \<open>None\<close> where the run has no defined result:
  \<open>1 << (power - 3)\<close> overflows \<open>int\<close> from \<open>power = 34\<close> on.
\<close>

definition run_power :: "(nat \<Rightarrow> byte) \<Rightarrow> bool \<Rightarrow> bool \<Rightarrow> int \<Rightarrow> string \<Rightarrow> outcome option" where
  "run_power junk calloc_ok fopen_ok pwr err =
     (let err1 = err @ ''power = '' @ fmt_int pwr @ newline
      in if 34 \<le> pwr then None
         else
           let max = (2 :: nat) ^ nat (pwr - 3);
               e = max;
               endsqrt = isqrt max + 1
           in if \<not> calloc_ok
              then Some \<lparr>stderr = err1 @ ''Failed to allocate memory'' @ newline,
                          primes_txt = None, status = 1\<rparr>
              else do {
                buf \<leftarrow> findPrimes junk (replicate max 0) endsqrt e;
                if \<not> fopen_ok
                then Some \<lparr>stderr = err1 @ ''Failed to create ./primes.txt'' @ newline,
                            primes_txt = None, status = 1\<rparr>
                else do {
                  text \<leftarrow> printPrimes junk buf e;
                  Some \<lparr>stderr = err1, primes_txt = Some text, status = 0\<rparr>
                }
              })"

definition main :: "(nat \<Rightarrow> byte) \<Rightarrow> bool \<Rightarrow> bool \<Rightarrow> string list \<Rightarrow> outcome option" where
  "main junk calloc_ok fopen_ok argv =
     (case choose_power argv of (p, err) \<Rightarrow> run_power junk calloc_ok fopen_ok p err)"

section \<open>What the output is compared with\<close>

text \<open>
  A prime is a natural number from 2 on whose only divisors are 1 and itself, that
  is, with no divisor from 2 to below itself. The expected file has one line for
  every prime below \<open>2 ^ P\<close>, in ascending order.
\<close>

definition is_prime :: "nat \<Rightarrow> bool" where
  "is_prime n \<longleftrightarrow> 2 \<le> n \<and> (\<forall>d \<in> {2..<n}. \<not> d dvd n)"

definition line_of :: "nat \<Rightarrow> string" where
  "line_of n = fmt_int (int n) @ newline"

definition primes_below :: "nat \<Rightarrow> nat list" where
  "primes_below N = filter is_prime [2..<N]"

text \<open>
  The sieve with the tighter cutoff, for comparison with the one of the source. It
  follows the specification's words (\<open>An implementer may instead use the tighter
  floor (sqrt N) + 1\<close>): the scanner gives up at the first number that is not below
  the limit, instead of at the first byte that is not before \<open>endsqrt\<close>; all else
  is as in the source.
\<close>

partial_function (option)
  searchLoopTight :: "(nat \<Rightarrow> byte) \<Rightarrow> byte list \<Rightarrow> nat \<Rightarrow> cursor \<Rightarrow> cursor option"
where
  "searchLoopTight junk buf limit c =
     (if CHAR_BIT * int (pointind c) + sint (ind c) < int limit
      then if temp_of (rd junk buf (current c)) (ind c) = 0
           then Some c
           else searchLoopTight junk buf limit (advance c)
      else Some (c\<lparr>ind := - 1\<rparr>))"

declare searchLoopTight.simps [code]

definition searchForZeroTight :: "(nat \<Rightarrow> byte) \<Rightarrow> byte list \<Rightarrow> cursor \<Rightarrow> nat \<Rightarrow> cursor option" where
  "searchForZeroTight junk buf c limit = searchLoopTight junk buf limit (advance c)"

partial_function (option)
  findLoopTight :: "(nat \<Rightarrow> byte) \<Rightarrow> nat \<Rightarrow> nat \<Rightarrow> byte list \<Rightarrow> cursor \<Rightarrow> byte list option"
where
  "findLoopTight junk limit e buf c =
     (if sint (ind c) \<noteq> - 1
      then do {
        buf' \<leftarrow> eliminateMults buf (pointind c) (ind c) e;
        c' \<leftarrow> searchForZeroTight junk buf' c limit;
        findLoopTight junk limit e buf' c'
      }
      else Some buf)"

declare findLoopTight.simps [code]

definition findPrimesTight :: "(nat \<Rightarrow> byte) \<Rightarrow> byte list \<Rightarrow> nat \<Rightarrow> nat \<Rightarrow> byte list option" where
  "findPrimesTight junk buf limit e =
     (let buf1 = setToOne buf 0 0;
          buf2 = setToOne buf1 0 1
      in findLoopTight junk limit e buf2 \<lparr>current = 0, pointind = 0, ind = 2\<rparr>)"

section \<open>The invariants of the sieve\<close>

text \<open>
  \<open>sound\<close>: only 0, 1 and composites are marked. \<open>crossed buf p\<close>: every number of the
  buffer that has a prime factor \<open>q < p\<close> with \<open>q\<^sup>2\<close> not above it is marked.
\<close>

definition sound :: "byte list \<Rightarrow> bool" where
  "sound buf \<longleftrightarrow> (\<forall>n < 8 * length buf. bit_at buf n \<longrightarrow> n < 2 \<or> \<not> is_prime n)"

definition crossed :: "byte list \<Rightarrow> nat \<Rightarrow> bool" where
  "crossed buf p \<longleftrightarrow>
     (\<forall>n < 8 * length buf. \<forall>q. is_prime q \<and> q < p \<and> q dvd n \<and> q * q \<le> n \<longrightarrow> bit_at buf n)"

section \<open>Bytes and bits\<close>

lemma bit_128_int: "bit (128::int) n \<longleftrightarrow> n = 7"
proof -
  have "(128::int) = push_bit 7 1" by simp
  then show ?thesis by (simp only: bit_push_bit_iff) (auto simp: bit_simps)
qed

lemma byte_zero_iff: "(w :: byte) = 0 \<longleftrightarrow> (\<forall>n<8. \<not> bit w n)"
  by (auto simp: bit_eq_iff[where 'a="8 word"] dest: bit_imp_le_length)

lemma bit_temp_of: "bit (temp_of b i) n \<longleftrightarrow> n = 7 \<and> nat (sint i) \<le> 7 \<and> bit b (7 - nat (sint i))"
  unfolding temp_of_def Let_def SPECIAL_ONE_def
  by (cases "n = 7") (auto simp: bit_simps bit_128_int min_def)

lemma temp_of_zero_iff:
  assumes "0 \<le> sint i" "sint i \<le> 7"
  shows "temp_of b i = 0 \<longleftrightarrow> \<not> bit b (7 - nat (sint i))"
  using assms unfolding byte_zero_iff bit_temp_of by auto

lemma bit_setToOne_byte:
  fixes b :: byte
  shows "bit (word_of_int (sint b OR drop_bit k SPECIAL_ONE) :: byte) n
         \<longleftrightarrow> bit b n \<or> (k \<le> 7 \<and> n = 7 - k)"
proof (cases "n < 8")
  case True
  then have "n = 7 \<or> n < 7" by arith
  then show ?thesis
    unfolding SPECIAL_ONE_def using True
    by (auto simp: bit_simps bit_128_int min_def)
next
  case False
  then show ?thesis
    by (auto simp: bit_simps dest: bit_imp_le_length)
qed

lemma sint_small: "k < 128 \<Longrightarrow> sint (of_nat k :: byte) = int k"
  by (simp add: signed_of_nat signed_take_bit_int_eq_self)

lemma advance_cursor_of: "advance (cursor_of n) = cursor_of (Suc n)"
proof (cases "n mod 8 = 7")
  case True
  have "sint (of_nat (n mod 8) + 1 :: byte) = 8"
    unfolding True by simp
  moreover have "(of_nat (n mod 8) + 1 :: byte) - 8 = 0"
    unfolding True by simp
  moreover have "Suc n mod 8 = 0" "Suc n div 8 = Suc (n div 8)"
    using True by (simp_all add: mod_Suc div_Suc)
  ultimately show ?thesis
    by (simp add: advance_def cursor_of_def CHAR_BIT_def Let_def)
next
  case False
  then have k: "Suc (n mod 8) < 8" 
    using mod_less_divisor[of 8 n] by arith
  have "sint (of_nat (Suc (n mod 8)) :: byte) = int (Suc (n mod 8))"
    using k by (intro sint_small) arith
  then have "sint (of_nat (n mod 8) + 1 :: byte) = int (n mod 8) + 1"
    by (simp add: add.commute)
  moreover have "Suc n mod 8 = Suc (n mod 8)" "Suc n div 8 = n div 8"
    using False by (simp_all add: mod_Suc div_Suc)
  ultimately show ?thesis
    using k by (simp add: advance_def cursor_of_def CHAR_BIT_def Let_def)
qed

section \<open>The scanner loop\<close>

lemma mod8_small: "n mod 8 < (128::nat)"
  by (rule less_trans[OF mod_less_divisor]) simp_all

lemma temp_of_cursor:
  "temp_of (rd junk buf (n div 8)) (of_nat (n mod 8)) = 0 \<longleftrightarrow> \<not> bit_rd junk buf n"
  using temp_of_zero_iff[of "of_nat (n mod 8)" "rd junk buf (n div 8)"]
  by (simp add: bit_rd_def sint_small[OF mod8_small])

lemma div8_less: "n div 8 < e \<longleftrightarrow> n < 8 * e" for n e :: nat
  by (simp add: div_less_iff_less_mult mult.commute)

lemma searchLoop_cursor_of:
  "searchLoop junk buf e (cursor_of n) =
     Some (case find (\<lambda>m. \<not> bit_rd junk buf m) [n..<8 * e] of
             Some m \<Rightarrow> cursor_of m
           | None \<Rightarrow> (cursor_of (max n (8 * e)))\<lparr>ind := - 1\<rparr>)"
proof (induction "8 * e - n" arbitrary: n rule: less_induct)
  case less
  show ?case
  proof (cases "n < 8 * e")
    case False
    then have "\<not> current (cursor_of n) < e"
      by (simp add: cursor_of_def div8_less)
    with False show ?thesis
      by (subst searchLoop.simps) (simp add: max_def)
  next
    case True
    then have cur: "current (cursor_of n) < e"
      by (simp add: cursor_of_def div8_less)
    have upt: "[n..<8 * e] = n # [Suc n..<8 * e]"
      using True by (simp add: upt_conv_Cons)
    have tmp: "temp_of (rd junk buf (current (cursor_of n))) (ind (cursor_of n)) = 0
                 \<longleftrightarrow> \<not> bit_rd junk buf n"
      using temp_of_cursor[of junk buf n] by (simp add: cursor_of_def)
    show ?thesis
    proof (cases "bit_rd junk buf n")
      case False
      with cur tmp upt show ?thesis
        by (subst searchLoop.simps) simp
    next
      case set: True
      have "8 * e - Suc n < 8 * e - n" using True by arith
      from less[OF this] have IH: "searchLoop junk buf e (cursor_of (Suc n)) =
         Some (case find (\<lambda>m. \<not> bit_rd junk buf m) [Suc n..<8 * e] of
             Some m \<Rightarrow> cursor_of m
           | None \<Rightarrow> (cursor_of (max (Suc n) (8 * e)))\<lparr>ind := - 1\<rparr>)" .
      have mx: "max (Suc n) (8 * e) = max n (8 * e)" using True by arith
      show ?thesis
        apply (subst searchLoop.simps)
        using cur tmp set upt IH[unfolded mx]
        by (simp add: advance_cursor_of)
    qed
  qed
qed

section \<open>The crossing loop\<close>

lemma length_setToOne [simp]: "length (setToOne buf p i) = length buf"
  by (simp add: setToOne_def)

lemma bit_at_setToOne:
  assumes "v div 8 < length buf"
  shows "bit_at (setToOne buf (v div 8) (of_nat (v mod 8))) n \<longleftrightarrow> bit_at buf n \<or> n = v"
proof (cases "n div 8 = v div 8")
  case False
  then show ?thesis by (auto simp: bit_at_def setToOne_def)
next
  case True
  have "n = v \<longleftrightarrow> n mod 8 = v mod 8"
    using True by (metis div_mult_mod_eq)
  moreover have "7 - n mod 8 = 7 - v mod 8 \<longleftrightarrow> n mod 8 = v mod 8"
    using mod_less_divisor[of 8 n] mod_less_divisor[of 8 v] by arith
  moreover have "v mod 8 \<le> 7" using mod_less_divisor[of 8 v] by arith
  ultimately show ?thesis
    using assms True
    by (simp add: bit_at_def setToOne_def bit_setToOne_byte sint_small[OF mod8_small])
qed

lemma divmod8:
  fixes c t :: nat
  assumes "t < 8"
  shows "(8 * c + t) div 8 = c" "(8 * c + t) mod 8 = t"
  using assms by simp_all

lemma elimStep_cursor:
  assumes "k \<le> 7"
  shows "elimStep q (of_nat k) (buf, v div 8, of_nat (v mod 8)) =
           (setToOne buf (v div 8) (of_nat (v mod 8)),
            (v + (8 * q + k)) div 8, of_nat ((v + (8 * q + k)) mod 8))"
proof -
  define a where "a = v div 8"
  define b where "b = v mod 8"
  have v: "v = 8 * a + b" by (simp add: a_def b_def)
  have b: "b < 8" by (simp add: b_def)
  define s where "s = b + k"
  have s: "s < 128" using assms b by (simp add: s_def)
  have w: "(of_nat b + of_nat k :: byte) = of_nat s" by (simp add: s_def)
  have si: "sint (of_nat s :: byte) = int s" using s by (rule sint_small)
  show ?thesis
  proof (cases "8 \<le> s")
    case True
    define t where "t = s - 8"
    have t: "t < 8" "s = 8 + t" using True assms b by (simp_all add: s_def t_def)
    have e: "v + (8 * q + k) = 8 * (a + q + 1) + t"
      using t by (simp add: v s_def)
    have dm: "(v + (8 * q + k)) div 8 = a + q + 1" "(v + (8 * q + k)) mod 8 = t"
      unfolding e by (rule divmod8[OF t(1)])+
    have "(of_nat s :: byte) - 8 = of_nat t" by (simp add: t)
    then show ?thesis using True
      unfolding dm a_def[symmetric] b_def[symmetric]
      by (simp add: elimStep_def Let_def w si CHAR_BIT_def)
  next
    case False
    then have s8: "s < 8" by simp
    have e: "v + (8 * q + k) = 8 * (a + q) + s"
      by (simp add: v s_def)
    have dm: "(v + (8 * q + k)) div 8 = a + q" "(v + (8 * q + k)) mod 8 = s"
      unfolding e by (rule divmod8[OF s8])+
    show ?thesis using False
      unfolding dm a_def[symmetric] b_def[symmetric]
      by (simp add: elimStep_def Let_def w si CHAR_BIT_def)
  qed
qed

lemma sdiv_smod_nonneg:
  fixes a :: int
  assumes "0 \<le> a"
  shows "a sdiv 8 = a div 8" "a smod 8 = a mod 8"
proof -
  have "a = 0 \<or> sgn a = 1" using assms by (auto simp: sgn_if)
  then show "a sdiv 8 = a div 8" "a smod 8 = a mod 8"
    using assms by (auto simp: signed_divide_int_def signed_modulo_int_def)
qed

lemma elimInit_cursor:
  assumes "k \<le> 7"
  shows "elimInit q (of_nat k) = (((8 * q + k) * (8 * q + k)) div 8, of_nat (((8 * q + k) * (8 * q + k)) mod 8))"
proof -
  have k: "k < 128" using assms by arith
  have kk: "k * k < 50"
  proof -
    have "k * k \<le> 7 * 7" using assms by (intro mult_mono) simp_all
    then show ?thesis by simp
  qed
  define W :: byte where "W = of_nat (k * k)"
  have sq: "(word_of_int (sint (of_nat k :: byte) * sint (of_nat k :: byte)) :: byte) = W"
    by (simp add: sint_small[OF k] W_def)
  have si: "sint W = int (k * k)" unfolding W_def using kk by (intro sint_small) arith
  have cur: "nat (8 * int q * int q + 2 * int q * sint (of_nat k :: byte)) = 8 * q * q + 2 * q * k"
    by (simp add: nat_add_distrib nat_mult_distrib sint_small[OF k])
  have dm: "((8 * q + k) * (8 * q + k)) div 8 = 8 * q * q + 2 * q * k + (k * k) div 8"
           "((8 * q + k) * (8 * q + k)) mod 8 = (k * k) mod 8"
  proof -
    have e: "(8 * q + k) * (8 * q + k) = (8 * q * q + 2 * q * k) * 8 + k * k"
      by (simp add: algebra_simps)
    show "((8 * q + k) * (8 * q + k)) div 8 = 8 * q * q + 2 * q * k + (k * k) div 8"
      by (subst e, subst div_mult_self3) simp_all
    show "((8 * q + k) * (8 * q + k)) mod 8 = (k * k) mod 8"
      by (subst e) (rule mod_mult_self3)
  qed
  have init: "elimInit q (of_nat k) =
     (if 8 \<le> int (k * k)
      then (8 * q * q + 2 * q * k + nat (int (k * k) sdiv 8), word_of_int (int (k * k) smod 8))
      else (8 * q * q + 2 * q * k, W))"
    unfolding elimInit_def Let_def CHAR_BIT_def sq cur si ..
  show ?thesis
  proof (cases "8 \<le> k * k")
    case True
    then have T: "(8::int) \<le> int (k * k)" by linarith
    have d: "int (k * k) sdiv 8 = int ((k * k) div 8)" "int (k * k) smod 8 = int ((k * k) mod 8)"
      by (simp_all only: sdiv_smod_nonneg of_nat_0_le_iff zdiv_int zmod_int of_nat_numeral)
    have "elimInit q (of_nat k) =
       (8 * q * q + 2 * q * k + nat (int (k * k) sdiv 8), word_of_int (int (k * k) smod 8))"
      unfolding init using T by (simp only: if_True)
    also have "\<dots> = (8 * q * q + 2 * q * k + (k * k) div 8, of_nat ((k * k) mod 8))"
      unfolding d by (simp only: nat_int of_int_of_nat_eq)
    finally show ?thesis unfolding dm .
  next
    case False
    then have F: "\<not> (8::int) \<le> int (k * k)" by linarith
    from False have z: "(k * k) div 8 = 0" "(k * k) mod 8 = k * k" by arith+
    have "elimInit q (of_nat k) = (8 * q * q + 2 * q * k, W)"
      unfolding init using F by (simp only: if_False)
    then show ?thesis unfolding dm z W_def by (simp only: add_0_right)
  qed
qed

lemma stride_unfold:
  fixes v p n L :: nat
  assumes "0 < p" "v < L"
  shows "(v \<le> n \<and> n < L \<and> p dvd (n - v)) \<longleftrightarrow>
         n = v \<or> (v + p \<le> n \<and> n < L \<and> p dvd (n - (v + p)))"
proof
  assume l: "v \<le> n \<and> n < L \<and> p dvd (n - v)"
  show "n = v \<or> (v + p \<le> n \<and> n < L \<and> p dvd (n - (v + p)))"
  proof (cases "n = v")
    case False
    with l have pos: "0 < n - v" by arith
    with l have "p \<le> n - v" by (auto dest: dvd_imp_le)
    with pos have ge: "v + p \<le> n" by arith
    have e: "n - (v + p) = (n - v) - p" by arith
    from l have "p dvd (n - v)" by simp
    from dvd_diff_nat[OF this dvd_refl] have "p dvd ((n - v) - p)" .
    then have "p dvd (n - (v + p))" unfolding e .
    then show ?thesis using ge l by blast
  qed simp
next
  assume r: "n = v \<or> (v + p \<le> n \<and> n < L \<and> p dvd (n - (v + p)))"
  then show "v \<le> n \<and> n < L \<and> p dvd (n - v)"
  proof
    assume "n = v" then show ?thesis using assms by simp
  next
    assume a: "v + p \<le> n \<and> n < L \<and> p dvd (n - (v + p))"
    then have e: "n - v = (n - (v + p)) + p" by arith
    from a have "p dvd (n - (v + p)) + p" by (intro dvd_add) simp_all
    then have "p dvd (n - v)" unfolding e .
    then show ?thesis using a by simp
  qed
qed

lemma elimLoop_spec:
  assumes "k \<le> 7" "0 < 8 * q + k" "e \<le> length buf"
  shows "\<exists>buf'. elimLoop q (of_nat k) e (buf, v div 8, of_nat (v mod 8)) = Some buf'
           \<and> length buf' = length buf
           \<and> (\<forall>n. bit_at buf' n \<longleftrightarrow> bit_at buf n \<or> (v \<le> n \<and> n < 8 * e \<and> (8 * q + k) dvd (n - v)))"
  using assms(3)
proof (induction "8 * e - v" arbitrary: v buf rule: less_induct)
  case less
  show ?case
  proof (cases "v < 8 * e")
    case False
    then have "\<not> v div 8 < e" by (simp add: div8_less)
    then have "elimLoop q (of_nat k) e (buf, v div 8, of_nat (v mod 8)) = Some buf"
      by (subst elimLoop.simps) simp
    with False show ?thesis by auto
  next
    case True
    then have lt: "v div 8 < e" by (simp add: div8_less)
    then have inb: "v div 8 < length buf" using less.prems by simp
    let ?p = "8 * q + k"
    let ?buf1 = "setToOne buf (v div 8) (of_nat (v mod 8))"
    have step: "elimLoop q (of_nat k) e (buf, v div 8, of_nat (v mod 8)) =
                elimLoop q (of_nat k) e (?buf1, (v + ?p) div 8, of_nat ((v + ?p) mod 8))"
      using lt by (subst elimLoop.simps) (simp add: elimStep_cursor[OF assms(1)])
    have "8 * e - (v + ?p) < 8 * e - v" using True assms(2) by arith
    moreover have "e \<le> length ?buf1" using less.prems by simp
    ultimately obtain buf' where
      r: "elimLoop q (of_nat k) e (?buf1, (v + ?p) div 8, of_nat ((v + ?p) mod 8)) = Some buf'"
      and len: "length buf' = length ?buf1"
      and bits: "\<And>n. bit_at buf' n \<longleftrightarrow>
                   bit_at ?buf1 n \<or> (v + ?p \<le> n \<and> n < 8 * e \<and> ?p dvd (n - (v + ?p)))"
      using less.hyps[of "v + ?p" ?buf1] by blast
    have "bit_at buf' n \<longleftrightarrow> bit_at buf n \<or> (v \<le> n \<and> n < 8 * e \<and> ?p dvd (n - v))" for n
      unfolding bits bit_at_setToOne[OF inb] stride_unfold[OF assms(2) True, of n]
      by blast
    with r len step show ?thesis by simp
  qed
qed

section \<open>Buffers are determined by their bits\<close>

lemma byte_eqI:
  fixes a b :: byte
  assumes "\<And>j. j < 8 \<Longrightarrow> bit a (7 - j) = bit b (7 - j)"
  shows "a = b"
proof (rule bit_eqI)
  fix n
  assume "possible_bit TYPE(byte) n"
  then have n: "n < 8" by (simp add: possible_bit_def)
  then have "7 - (7 - n) = n" by arith
  with assms[of "7 - n"] n show "bit a n = bit b n" by simp
qed

lemma buffer_eqI:
  assumes len: "length a = length b"
    and bits: "\<And>n. n < 8 * length a \<Longrightarrow> bit_at a n = bit_at b n"
  shows "a = b"
proof (rule nth_equalityI[OF len])
  fix i
  assume i: "i < length a"
  show "a ! i = b ! i"
  proof (rule byte_eqI)
    fix j :: nat
    assume j: "j < 8"
    have "8 * i + j < 8 * length a" using i j by arith
    from bits[OF this] show "bit (a ! i) (7 - j) = bit (b ! i) (7 - j)"
      unfolding bit_at_def divmod8[OF j] .
  qed
qed

lemma bit_at_zero: "n < 8 * B \<Longrightarrow> \<not> bit_at (replicate B 0) n"
  by (simp add: bit_at_def div8_less)

lemma temp_of_cases: "temp_of b i = 0 \<or> temp_of b i = 128"
proof (cases "temp_of b i = 0")
  case False
  have "temp_of b i = 128"
  proof (rule bit_eqI)
    fix n
    assume "possible_bit TYPE(byte) n"
    have "bit (128 :: byte) n \<longleftrightarrow> n = 7"
      using bit_128_int[of n] by (auto simp: bit_simps bit_128_int)
    moreover have "bit (temp_of b i) n \<longleftrightarrow> n = 7"
      using False unfolding byte_zero_iff bit_temp_of by auto
    ultimately show "bit (temp_of b i) n = bit (128 :: byte) n" by simp
  qed
  then show ?thesis ..
qed simp

lemma temp_of_bit_at:
  "temp_of (buf ! (n div 8)) (of_nat (n mod 8)) = 0 \<longleftrightarrow> \<not> bit_at buf n"
  using temp_of_zero_iff[of "of_nat (n mod 8)" "buf ! (n div 8)"]
  by (simp add: bit_at_def sint_small[OF mod8_small])

lemma pow8: "3 \<le> P \<Longrightarrow> 8 * 2 ^ (P - 3) = (2::nat) ^ P"
proof -
  assume "3 \<le> P"
  then have "P = 3 + (P - 3)" by simp
  then have "(2::nat) ^ P = 2 ^ 3 * 2 ^ (P - 3)" by (metis power_add)
  then show ?thesis by simp
qed

section \<open>eliminateMults as a whole\<close>

lemma byte_of_sint: "0 \<le> sint (r::byte) \<Longrightarrow> of_nat (nat (sint r)) = r"
  by simp

lemma eliminateMults_cursor:
  assumes "0 \<le> sint r" "sint r \<le> 7"
  shows "eliminateMults buf q r e =
           elimLoop q r e (buf, ((8 * q + nat (sint r)) * (8 * q + nat (sint r))) div 8,
                                of_nat (((8 * q + nat (sint r)) * (8 * q + nat (sint r))) mod 8))"
proof -
  have k: "nat (sint r) \<le> 7" using assms by simp
  from elimInit_cursor[OF k, of q] show ?thesis
    unfolding eliminateMults_def byte_of_sint[OF assms(1)] by simp
qed

lemma eliminateMults_spec:
  assumes "0 \<le> sint r" "sint r \<le> 7" "p = 8 * q + nat (sint r)" "0 < p" "e \<le> length buf"
  shows "\<exists>buf'. eliminateMults buf q r e = Some buf'
           \<and> length buf' = length buf
           \<and> (\<forall>n. bit_at buf' n \<longleftrightarrow> bit_at buf n \<or> (p * p \<le> n \<and> n < 8 * e \<and> p dvd (n - p * p)))"
proof -
  have k: "nat (sint r) \<le> 7" using assms by simp
  have pos: "0 < 8 * q + nat (sint r)" using assms by simp
  from elimLoop_spec[OF k pos assms(5), of "p * p"] show ?thesis
    unfolding eliminateMults_cursor[OF assms(1,2)] byte_of_sint[OF assms(1)] assms(3)[symmetric] .
qed

lemma eliminateMults_noop:
  assumes "0 \<le> sint r" "sint r \<le> 7" "p = 8 * q + nat (sint r)" "8 * e \<le> p * p"
  shows "eliminateMults buf q r e = Some buf"
proof -
  have "\<not> (p * p) div 8 < e" using assms(4) by (simp add: div8_less)
  then show ?thesis
    unfolding eliminateMults_cursor[OF assms(1,2)] assms(3)[symmetric]
    by (subst elimLoop.simps) simp
qed

lemma eliminateMults_idem:
  assumes "0 \<le> sint r" "sint r \<le> 7" "0 < 8 * q + nat (sint r)" "e \<le> length buf"
    and "eliminateMults buf q r e = Some buf1"
  shows "eliminateMults buf1 q r e = Some buf1"
proof -
  define p where "p = 8 * q + nat (sint r)"
  have pos: "0 < p" using assms(3) by (simp add: p_def)
  from eliminateMults_spec[OF assms(1,2) p_def pos assms(4)] assms(5)
  have len1: "length buf1 = length buf"
    and bits1: "\<And>n. bit_at buf1 n \<longleftrightarrow> bit_at buf n \<or> (p * p \<le> n \<and> n < 8 * e \<and> p dvd (n - p * p))"
    by auto
  have e1: "e \<le> length buf1" using assms(4) len1 by simp
  from eliminateMults_spec[OF assms(1,2) p_def pos e1]
  obtain buf2 where r2: "eliminateMults buf1 q r e = Some buf2"
    and len2: "length buf2 = length buf1"
    and bits2: "\<And>n. bit_at buf2 n \<longleftrightarrow> bit_at buf1 n \<or> (p * p \<le> n \<and> n < 8 * e \<and> p dvd (n - p * p))"
    by blast
  have "buf2 = buf1"
    by (rule buffer_eqI[OF len2]) (auto simp: bits2 bits1)
  with r2 show ?thesis by simp
qed

section \<open>searchForZero as a whole\<close>

lemma find_upt_None:
  "find P [a..<b] = None \<longleftrightarrow> (\<forall>j. a \<le> j \<and> j < b \<longrightarrow> \<not> P j)"
  by (auto simp: find_None_iff)

lemma find_upt_Some:
  "find P [a..<b] = Some m \<longleftrightarrow> a \<le> m \<and> m < b \<and> P m \<and> (\<forall>j. a \<le> j \<and> j < m \<longrightarrow> \<not> P j)"
proof
  assume "find P [a..<b] = Some m"
  then obtain i where i: "i < length [a..<b]" "P ([a..<b] ! i)" "m = [a..<b] ! i"
    "\<forall>j<i. \<not> P ([a..<b] ! j)"
    unfolding find_Some_iff by blast
  then have m: "m = a + i" "a + i < b" by simp_all
  have "\<not> P j" if "a \<le> j" "j < m" for j
  proof -
    from that m have "j - a < i" "a + (j - a) = j" by arith+
    with i(4) m that show ?thesis by (metis less_trans nth_upt)
  qed
  with i m show "a \<le> m \<and> m < b \<and> P m \<and> (\<forall>j. a \<le> j \<and> j < m \<longrightarrow> \<not> P j)" by simp
next
  assume r: "a \<le> m \<and> m < b \<and> P m \<and> (\<forall>j. a \<le> j \<and> j < m \<longrightarrow> \<not> P j)"
  then have "m - a < b - a" by arith
  with r have "m - a < length [a..<b]" "[a..<b] ! (m - a) = m" by simp_all
  moreover have "\<forall>j<m - a. \<not> P ([a..<b] ! j)"
  proof (intro allI impI)
    fix j assume "j < m - a"
    then have "a + j < m" "a \<le> a + j" by arith+
    moreover from this r have "a + j < b" by arith
    ultimately show "\<not> P ([a..<b] ! j)" using r by simp
  qed
  ultimately show "find P [a..<b] = Some m"
    unfolding find_Some_iff using r by metis
qed

lemma searchForZero_cursor_of:
  "searchForZero junk buf (cursor_of n) e =
     Some (case find (\<lambda>m. \<not> bit_rd junk buf m) [Suc n..<8 * e] of
             Some m \<Rightarrow> cursor_of m
           | None \<Rightarrow> (cursor_of (max (Suc n) (8 * e)))\<lparr>ind := - 1\<rparr>)"
  unfolding searchForZero_def advance_cursor_of searchLoop_cursor_of ..

lemma searchForZero_found:
  assumes "n < m" "m < 8 * e" "\<not> bit_rd junk buf m" "\<And>j. n < j \<Longrightarrow> j < m \<Longrightarrow> bit_rd junk buf j"
  shows "searchForZero junk buf (cursor_of n) e = Some (cursor_of m)"
proof -
  have "find (\<lambda>m. \<not> bit_rd junk buf m) [Suc n..<8 * e] = Some m"
    unfolding find_upt_Some using assms by auto
  then show ?thesis unfolding searchForZero_cursor_of by simp
qed

lemma searchForZero_exhausted:
  assumes "\<And>j. n < j \<Longrightarrow> j < 8 * e \<Longrightarrow> bit_rd junk buf j"
  shows "searchForZero junk buf (cursor_of n) e = Some ((cursor_of (max (Suc n) (8 * e)))\<lparr>ind := - 1\<rparr>)"
proof -
  have "find (\<lambda>m. \<not> bit_rd junk buf m) [Suc n..<8 * e] = None"
    unfolding find_upt_None using assms by auto
  then show ?thesis unfolding searchForZero_cursor_of by simp
qed

lemma searchForZero_cases:
  obtains (found) m where "n < m" "m < 8 * e" "\<not> bit_rd junk buf m"
      "\<And>j. n < j \<Longrightarrow> j < m \<Longrightarrow> bit_rd junk buf j"
      "searchForZero junk buf (cursor_of n) e = Some (cursor_of m)"
  | (exhausted) "\<And>j. n < j \<Longrightarrow> j < 8 * e \<Longrightarrow> bit_rd junk buf j"
      "searchForZero junk buf (cursor_of n) e = Some ((cursor_of (max (Suc n) (8 * e)))\<lparr>ind := - 1\<rparr>)"
proof (cases "find (\<lambda>m. \<not> bit_rd junk buf m) [Suc n..<8 * e]")
  case None
  then have a: "\<And>j. n < j \<Longrightarrow> j < 8 * e \<Longrightarrow> bit_rd junk buf j"
    unfolding find_upt_None by auto
  from exhausted[OF a searchForZero_exhausted[OF a]] show ?thesis by blast
next
  case (Some m)
  then have a: "n < m" "m < 8 * e" "\<not> bit_rd junk buf m"
    "\<And>j. n < j \<Longrightarrow> j < m \<Longrightarrow> bit_rd junk buf j"
    unfolding find_upt_Some by auto
  from found[OF a searchForZero_found[OF a]] show ?thesis by blast
qed

lemma sint_sentinel: "sint (ind (c\<lparr>ind := - 1\<rparr>)) = - 1"
  by simp

lemma live_not_sentinel: "live c \<Longrightarrow> sint (ind c) \<noteq> - 1"
  by (auto simp: live_def)

section \<open>Bits are only ever set\<close>

lemma setToOne_mono: "bit_at buf n \<Longrightarrow> bit_at (setToOne buf p i) n"
proof -
  assume a: "bit_at buf n"
  show ?thesis
  proof (cases "p < length buf")
    case False
    then have "length buf \<le> p" by simp
    then have "setToOne buf p i = buf" unfolding setToOne_def by (rule list_update_beyond)
    with a show ?thesis by simp
  next
    case True
    show ?thesis
    proof (cases "n div 8 = p")
      case eq: True
      with True a show ?thesis
        by (simp add: bit_at_def setToOne_def bit_setToOne_byte)
    next
      case False
      with a show ?thesis by (simp add: bit_at_def setToOne_def)
    qed
  qed
qed

lemma elimStep_mono: "bit_at (fst s) n \<Longrightarrow> bit_at (fst (elimStep q r s)) n"
  by (cases s) (simp add: elimStep_def Let_def setToOne_mono)

lemma elimLoop_mono:
  assumes "elimLoop q r e s = Some buf'" "bit_at (fst s) n"
  shows "bit_at buf' n"
proof -
  have "bit_at (fst s) n \<longrightarrow> bit_at buf' n"
  proof (rule elimLoop.raw_induct[where P="\<lambda>q r e s y. bit_at (fst s) n \<longrightarrow> bit_at y n",
        OF _ assms(1)], goal_cases)
    case (1 f q r e s y)
    show ?case
    proof (cases "fst (snd s) < e")
      case True
      with 1(2) have "f q r e (elimStep q r s) = Some y" by simp
      from 1(1)[OF this] show ?thesis by (simp add: elimStep_mono)
    next
      case False
      with 1(2) show ?thesis by simp
    qed
  qed
  with assms(2) show ?thesis by simp
qed

lemma eliminateMults_mono:
  assumes "eliminateMults buf q r e = Some buf'" "bit_at buf n"
  shows "bit_at buf' n"
  using elimLoop_mono[OF assms(1)[unfolded eliminateMults_def]] assms(2) by simp

lemma findLoop_mono:
  assumes "findLoop junk endsqrt e buf c = Some buf'" "bit_at buf n"
  shows "bit_at buf' n"
proof -
  have "bit_at buf n \<longrightarrow> bit_at buf' n"
  proof (rule findLoop.raw_induct[where P="\<lambda>junk endsqrt e buf c y. bit_at buf n \<longrightarrow> bit_at y n",
        OF _ assms(1)], goal_cases)
    case (1 f junk endsqrt e buf c y)
    show ?case
    proof (cases "sint (ind c) \<noteq> - 1")
      case True
      with 1(2) obtain buf1 c1 where
        a: "eliminateMults buf (pointind c) (ind c) e = Some buf1"
        and b: "f junk endsqrt e buf1 c1 = Some y"
        by (auto simp: bind_eq_Some_conv)
      from 1(1)[OF b] eliminateMults_mono[OF a] show ?thesis by blast
    next
      case False
      with 1(2) show ?thesis by simp
    qed
  qed
  with assms(2) show ?thesis by simp
qed

lemma bit_at_first_two:
  assumes "0 < length buf"
  shows "bit_at (setToOne (setToOne buf 0 0) 0 1) n \<longleftrightarrow> bit_at buf n \<or> n = 0 \<or> n = 1"
proof -
  have a: "(0::nat) div 8 < length buf" "(1::nat) div 8 < length (setToOne buf 0 0)"
    using assms by simp_all
  from bit_at_setToOne[OF a(1), of n] bit_at_setToOne[OF a(2), of n]
  show ?thesis by auto
qed

section \<open>The bit offset stays in range\<close>

lemma elimInit_range:
  assumes "0 \<le> sint r" "sint r \<le> 7"
  shows "0 \<le> sint (snd (elimInit q r))" "sint (snd (elimInit q r)) \<le> 7"
    "8 * fst (elimInit q r) + nat (sint (snd (elimInit q r)))
       = (8 * q + nat (sint r)) * (8 * q + nat (sint r))"
proof -
  define p where "p = 8 * q + nat (sint r)"
  have k: "nat (sint r) \<le> 7" using assms by simp
  have i: "elimInit q r = ((p * p) div 8, of_nat ((p * p) mod 8))"
    using elimInit_cursor[OF k, of q] unfolding byte_of_sint[OF assms(1)] p_def .
  have s: "sint (of_nat ((p * p) mod 8) :: byte) = int ((p * p) mod 8)"
    by (rule sint_small[OF mod8_small])
  show "0 \<le> sint (snd (elimInit q r))" unfolding i snd_conv s by simp
  have "(p * p) mod 8 < 8" by simp
  then show "sint (snd (elimInit q r)) \<le> 7" unfolding i snd_conv s by linarith
  show "8 * fst (elimInit q r) + nat (sint (snd (elimInit q r))) = p * p"
    unfolding i snd_conv fst_conv s by simp
qed

lemma elimStep_range:
  assumes "0 \<le> sint r" "sint r \<le> 7" "0 \<le> sint i" "sint i \<le> 7"
    and "elimStep q r (buf, cur, i) = (buf', cur', i')"
  shows "0 \<le> sint i'" "sint i' \<le> 7"
    "8 * cur' + nat (sint i') = (8 * cur + nat (sint i)) + (8 * q + nat (sint r))"
    "cur' = cur + q \<or> cur' = cur + q + 1"
proof -
  define v where "v = 8 * cur + nat (sint i)"
  define p where "p = 8 * q + nat (sint r)"
  have k: "nat (sint r) \<le> 7" and j: "nat (sint i) < 8" using assms by simp_all
  have vd: "v div 8 = cur" "v mod 8 = nat (sint i)"
    unfolding v_def by (rule divmod8[OF j])+
  have "elimStep q r (buf, cur, i) =
          (setToOne buf cur i, (v + p) div 8, of_nat ((v + p) mod 8))"
    using elimStep_cursor[OF k, of q buf v]
    unfolding vd byte_of_sint[OF assms(1)] byte_of_sint[OF assms(3)] p_def .
  with assms(5) have c: "cur' = (v + p) div 8" and i': "i' = of_nat ((v + p) mod 8)"
    by simp_all
  have s: "sint i' = int ((v + p) mod 8)"
    unfolding i' by (rule sint_small[OF mod8_small])
  show "0 \<le> sint i'" unfolding s by simp
  have "(v + p) mod 8 < 8" by simp
  then show "sint i' \<le> 7" unfolding s by linarith
  show e: "8 * cur' + nat (sint i') = v + p"
    unfolding c s by simp
  have "nat (sint i') < 8" unfolding s by simp
  with e j k show "cur' = cur + q \<or> cur' = cur + q + 1"
    unfolding v_def p_def by arith
qed

lemma live_cursor_of: "live (cursor_of n)"
  by (simp add: live_def cursor_of_def sint_small[OF mod8_small])

lemma number_of_cursor_of: "number_of (cursor_of n) = n"
  by (simp add: number_of_def cursor_of_def sint_small[OF mod8_small])

lemma cursor_of_number_of: "live c \<Longrightarrow> cursor_of (number_of c) = c"
  by (cases c) (auto simp: live_def cursor_of_def number_of_def nat_le_iff)

lemma advance_live:
  assumes "live c"
  shows "live (advance c)" "number_of (advance c) = Suc (number_of c)"
proof -
  from cursor_of_number_of[OF assms] have "advance c = cursor_of (Suc (number_of c))"
    using advance_cursor_of[of "number_of c"] by simp
  then show "live (advance c)" "number_of (advance c) = Suc (number_of c)"
    by (simp_all add: live_cursor_of number_of_cursor_of)
qed

section \<open>Primes\<close>

lemma is_prime_iff:
  "is_prime n \<longleftrightarrow> 2 \<le> n \<and> (\<forall>d. d dvd n \<longrightarrow> d = 1 \<or> d = n)"
proof
  assume p: "is_prime n"
  then have n: "2 \<le> n" by (simp add: is_prime_def)
  have "d = 1 \<or> d = n" if "d dvd n" for d
  proof (rule ccontr)
    assume c: "\<not> (d = 1 \<or> d = n)"
    from that n have "d \<le> n" by (intro dvd_imp_le) simp_all
    moreover from that n have "d \<noteq> 0" by (cases "d = 0") simp_all
    ultimately have "d \<in> {2..<n}" using c by simp
    with p that show False unfolding is_prime_def by blast
  qed
  with n show "2 \<le> n \<and> (\<forall>d. d dvd n \<longrightarrow> d = 1 \<or> d = n)" by blast
next
  assume a: "2 \<le> n \<and> (\<forall>d. d dvd n \<longrightarrow> d = 1 \<or> d = n)"
  then have "\<not> d dvd n" if "d \<in> {2..<n}" for d
    using that by fastforce
  with a show "is_prime n" unfolding is_prime_def by blast
qed

lemma is_prime_ge2: "is_prime n \<Longrightarrow> 2 \<le> n"
  by (simp add: is_prime_def)

lemma multiple_not_prime:
  assumes "2 \<le> p" "p dvd n" "p * p \<le> n"
  shows "\<not> is_prime n"
proof
  assume "is_prime n"
  with assms(2) have "p = 1 \<or> p = n" unfolding is_prime_iff by blast
  with assms(1) have "p = n" by simp
  with assms(3) have "n * n \<le> n * 1" by simp
  then have "n \<le> 1" using assms(1) \<open>p = n\<close> by simp
  with assms(1) \<open>p = n\<close> show False by simp
qed

lemma small_prime_factor:
  assumes "2 \<le> n" "\<not> is_prime n"
  shows "\<exists>q. is_prime q \<and> q dvd n \<and> q * q \<le> n"
proof -
  define q where "q = (LEAST d. 2 \<le> d \<and> d dvd n)"
  have ex: "2 \<le> n \<and> n dvd n" using assms(1) by simp
  have q: "2 \<le> q" "q dvd n" 
    using LeastI[of "\<lambda>d. 2 \<le> d \<and> d dvd n" n, OF ex] unfolding q_def by simp_all
  have least: "q \<le> d" if "2 \<le> d" "d dvd n" for d
    unfolding q_def using that by (intro Least_le) simp
  have prime: "is_prime q"
    unfolding is_prime_iff
  proof (intro conjI allI impI)
    show "2 \<le> q" by (rule q)
    fix d assume d: "d dvd q"
    show "d = 1 \<or> d = q"
    proof (cases "2 \<le> d")
      case True
      from d q(2) have "d dvd n" by (rule dvd_trans)
      from least[OF True this] have "q \<le> d" .
      moreover from d q(1) have "d \<le> q" by (intro dvd_imp_le) simp_all
      ultimately show ?thesis by simp
    next
      case False
      moreover from d q(1) have "d \<noteq> 0" by (cases "d = 0") simp_all
      ultimately show ?thesis by arith
    qed
  qed
  from assms obtain d where d: "d dvd n" "d \<noteq> 1" "d \<noteq> n"
    unfolding is_prime_iff by blast
  from d assms(1) have d2: "2 \<le> d" by (cases "d = 0") (simp, arith)
  from d assms(1) have "d \<le> n" by (intro dvd_imp_le) simp_all
  with d have "d < n" by simp
  with least[OF d2 d(1)] have qn: "q < n" by simp
  from q(2) obtain k where k: "n = q * k" by (auto simp: dvd_def)
  have "k dvd n" unfolding k by simp
  moreover have "2 \<le> k"
  proof (rule ccontr)
    assume "\<not> 2 \<le> k"
    then have "k = 0 \<or> k = 1" by arith
    with k qn assms(1) show False by auto
  qed
  ultimately have "q \<le> k" by (intro least)
  then have "q * q \<le> q * k" by simp
  with prime q(2) k show ?thesis by auto
qed

section \<open>The integer square root\<close>

lemma isqrt_bounds: "isqrt n * isqrt n \<le> n \<and> n < Suc (isqrt n) * Suc (isqrt n)"
proof (induction n)
  case 0
  show ?case by simp
next
  case (Suc n)
  show ?case
  proof (cases "Suc (isqrt n) * Suc (isqrt n) \<le> Suc n")
    case True
    then have i: "isqrt (Suc n) = Suc (isqrt n)" by (simp add: Let_def)
    from Suc True have "Suc n = Suc (isqrt n) * Suc (isqrt n)" by arith
    then have "Suc n < Suc (Suc (isqrt n)) * Suc (Suc (isqrt n))" by simp
    with True show ?thesis unfolding i by simp
  next
    case False
    then have i: "isqrt (Suc n) = isqrt n" by (simp add: Let_def)
    from Suc False show ?thesis unfolding i by simp
  qed
qed

section \<open>One round of the sieve\<close>

lemma bit_rd_inside: "n < 8 * length buf \<Longrightarrow> bit_rd junk buf n = bit_at buf n"
  by (simp add: bit_rd_def bit_at_def rd_def div8_less)

lemma eliminateMults_at:
  assumes "0 < p" "e \<le> length buf"
  shows "\<exists>buf'. eliminateMults buf (pointind (cursor_of p)) (ind (cursor_of p)) e = Some buf'
           \<and> length buf' = length buf
           \<and> (\<forall>n. bit_at buf' n \<longleftrightarrow> bit_at buf n \<or> (p * p \<le> n \<and> n < 8 * e \<and> p dvd (n - p * p)))"
proof -
  have s: "sint (of_nat (p mod 8) :: byte) = int (p mod 8)"
    by (rule sint_small[OF mod8_small])
  have r: "0 \<le> sint (of_nat (p mod 8) :: byte)" "sint (of_nat (p mod 8) :: byte) \<le> 7"
    unfolding s using mod_less_divisor[of 8 p] by simp_all
  have p: "p = 8 * (p div 8) + nat (sint (of_nat (p mod 8) :: byte))"
    unfolding s by simp
  from eliminateMults_spec[OF r p assms] show ?thesis
    by (simp add: cursor_of_def)
qed

lemma eliminateMults_at_noop:
  assumes "8 * e \<le> p * p"
  shows "eliminateMults buf (pointind (cursor_of p)) (ind (cursor_of p)) e = Some buf"
proof -
  have s: "sint (of_nat (p mod 8) :: byte) = int (p mod 8)"
    by (rule sint_small[OF mod8_small])
  have r: "0 \<le> sint (of_nat (p mod 8) :: byte)" "sint (of_nat (p mod 8) :: byte) \<le> 7"
    unfolding s using mod_less_divisor[of 8 p] by simp_all
  have p: "p = 8 * (p div 8) + nat (sint (of_nat (p mod 8) :: byte))"
    unfolding s by simp
  from eliminateMults_noop[OF r p assms] show ?thesis
    by (simp add: cursor_of_def)
qed

lemma sieve_round:
  assumes "2 \<le> p" "sound buf" "crossed buf p"
    and "length buf' = length buf"
    and bits: "\<And>n. bit_at buf' n \<longleftrightarrow>
                 bit_at buf n \<or> (p * p \<le> n \<and> n < 8 * length buf \<and> p dvd (n - p * p))"
  shows "sound buf'" "crossed buf' (Suc p)"
proof -
  have dv: "p dvd n \<longleftrightarrow> p dvd (n - p * p)" if "p * p \<le> n" for n
  proof -
    from that have "n = (n - p * p) + p * p" by simp
    then show ?thesis by (metis dvd_add_left_iff dvd_triv_left)
  qed
  show "sound buf'"
    unfolding sound_def
  proof (intro allI impI)
    fix n assume n: "n < 8 * length buf'" and b: "bit_at buf' n"
    show "n < 2 \<or> \<not> is_prime n"
    proof (cases "bit_at buf n")
      case True
      with assms(2,4) n show ?thesis by (simp add: sound_def)
    next
      case False
      with b bits have x: "p * p \<le> n" "p dvd (n - p * p)" by auto
      with dv have "p dvd n" by simp
      from multiple_not_prime[OF assms(1) this x(1)] show ?thesis ..
    qed
  qed
  show "crossed buf' (Suc p)"
    unfolding crossed_def
  proof (intro allI impI)
    fix n q
    assume n: "n < 8 * length buf'"
      and q: "is_prime q \<and> q < Suc p \<and> q dvd n \<and> q * q \<le> n"
    show "bit_at buf' n"
    proof (cases "q = p")
      case True
      with q dv n assms(4) show ?thesis unfolding bits by simp
    next
      case False
      with q have "q < p" by simp
      with q n assms(3,4) have "bit_at buf n" unfolding crossed_def by auto
      then show ?thesis unfolding bits by simp
    qed
  qed
qed

lemma crossed_skip:
  assumes "sound buf" "crossed buf (Suc p)" "p < m"
    and "\<And>j. p < j \<Longrightarrow> j < m \<Longrightarrow> bit_rd junk buf j"
  shows "crossed buf m"
  unfolding crossed_def
proof (intro allI impI)
  fix n q
  assume n: "n < 8 * length buf"
    and q: "is_prime q \<and> q < m \<and> q dvd n \<and> q * q \<le> n"
  show "bit_at buf n"
  proof (cases "q < Suc p")
    case True
    with q n assms(2) show ?thesis unfolding crossed_def by blast
  next
    case False
    then have "p < q" by simp
    with q assms(4) have r: "bit_rd junk buf q" by simp
    have "q \<le> q * q" by (cases q) simp_all
    moreover from q have "q * q \<le> n" by simp
    ultimately have "q < 8 * length buf" using n by linarith
    with r have "bit_at buf q" by (simp add: bit_rd_inside)
    with assms(1) \<open>q < 8 * length buf\<close> have "q < 2 \<or> \<not> is_prime q"
      by (simp add: sound_def)
    with q is_prime_ge2[of q] show ?thesis by auto
  qed
qed

section \<open>The sieving loop\<close>

lemma crossed_less: "crossed buf a \<Longrightarrow> b \<le> a \<Longrightarrow> crossed buf b"
  unfolding crossed_def by (meson less_le_trans)

lemma findLoop_exit: "findLoop junk E e buf (c\<lparr>ind := - 1\<rparr>) = Some buf"
  by (subst findLoop.simps) simp

lemma findLoop_step:
  assumes "eliminateMults buf (pointind (cursor_of p)) (ind (cursor_of p)) e = Some buf1"
    and "searchForZero junk buf1 (cursor_of p) E = Some c1"
  shows "findLoop junk E e buf (cursor_of p) = findLoop junk E e buf1 c1"
  using assms live_not_sentinel[OF live_cursor_of[of p]]
  by (subst findLoop.simps) simp

lemma findLoop_sieves:
  assumes "2 \<le> p" "sound buf" "crossed buf p"
  shows "\<exists>buf'. findLoop junk E (length buf) buf (cursor_of p) = Some buf'
           \<and> length buf' = length buf \<and> sound buf' \<and> crossed buf' (8 * E)"
  using assms
proof (induction "8 * E - p" arbitrary: p buf rule: less_induct)
  case less
  from \<open>2 \<le> p\<close> have pos: "0 < p" by simp
  from eliminateMults_at[OF pos order_refl, of buf]
  obtain buf1 where el: "eliminateMults buf (pointind (cursor_of p)) (ind (cursor_of p)) (length buf) = Some buf1"
    and len: "length buf1 = length buf"
    and bits: "\<And>n. bit_at buf1 n \<longleftrightarrow>
                 bit_at buf n \<or> (p * p \<le> n \<and> n < 8 * length buf \<and> p dvd (n - p * p))"
    by blast
  from sieve_round[OF less.prems(1,2,3) len bits]
  have s1: "sound buf1" and c1: "crossed buf1 (Suc p)" .
  show ?case
  proof (cases rule: searchForZero_cases[of p E junk buf1])
    case (found m)
    from crossed_skip[OF s1 c1 found(1) found(4)] have cm: "crossed buf1 m" by simp
    have "8 * E - m < 8 * E - p" using found(1,2) by arith
    moreover have "2 \<le> m" using found(1) less.prems(1) by simp
    ultimately obtain buf' where
      "findLoop junk E (length buf1) buf1 (cursor_of m) = Some buf'"
      "length buf' = length buf1" "sound buf'" "crossed buf' (8 * E)"
      using less.hyps[OF _ _ s1 cm] by blast
    then show ?thesis
      unfolding findLoop_step[OF el found(5)] len by blast
  next
    case exhausted
    have "crossed buf1 (8 * E)"
    proof (cases "p < 8 * E")
      case True
      from crossed_skip[OF s1 c1 True exhausted(1)] show ?thesis by simp
    next
      case False
      then have "8 * E \<le> Suc p" by simp
      with c1 show ?thesis by (rule crossed_less)
    qed
    with s1 len show ?thesis
      unfolding findLoop_step[OF el exhausted(2)] findLoop_exit by simp
  qed
qed

lemma first_two_sound:
  assumes "0 < B"
  shows "sound (setToOne (setToOne (replicate B 0) 0 0) 0 1)"
    "crossed (setToOne (setToOne (replicate B 0) 0 0) 0 1) 2"
proof -
  let ?b = "setToOne (setToOne (replicate B 0) 0 0) 0 1"
  have l: "0 < length (replicate B (0::byte))" using assms by simp
  have b: "bit_at ?b n \<longleftrightarrow> n = 0 \<or> n = 1" if "n < 8 * B" for n
    using bit_at_first_two[OF l, of n] bit_at_zero[OF that] by simp
  show "sound ?b" unfolding sound_def using b by auto
  show "crossed ?b 2" unfolding crossed_def using is_prime_ge2 by fastforce
qed

lemma findPrimes_sieves:
  assumes "0 < B" "8 * B \<le> (8 * E) * (8 * E)"
  shows "\<exists>buf'. findPrimes junk (replicate B 0) E B = Some buf' \<and> length buf' = B
           \<and> (\<forall>n < 8 * B. bit_at buf' n \<longleftrightarrow> \<not> is_prime n)"
proof -
  let ?b = "setToOne (setToOne (replicate B 0) 0 0) 0 1"
  have c2: "\<lparr>current = 0, pointind = 0, ind = 2\<rparr> = cursor_of 2"
    by (simp add: cursor_of_def)
  have lb: "length ?b = B" by simp
  from findLoop_sieves[OF order_refl first_two_sound[OF assms(1)], of junk E]
  obtain buf' where f: "findLoop junk E B ?b (cursor_of 2) = Some buf'"
    and len: "length buf' = B" and s: "sound buf'" and c: "crossed buf' (8 * E)"
    unfolding lb by blast
  have l: "0 < length (replicate B (0::byte))" using assms by simp
  have b01: "bit_at buf' 0" "bit_at buf' 1"
    using findLoop_mono[OF f, of 0] findLoop_mono[OF f, of 1] bit_at_first_two[OF l]
    by simp_all
  have "bit_at buf' n \<longleftrightarrow> \<not> is_prime n" if n: "n < 8 * B" for n
  proof
    assume "bit_at buf' n"
    with s n len have "n < 2 \<or> \<not> is_prime n" by (simp add: sound_def)
    then show "\<not> is_prime n" using is_prime_ge2[of n] by auto
  next
    assume np: "\<not> is_prime n"
    show "bit_at buf' n"
    proof (cases "n < 2")
      case True
      then have "n = 0 \<or> n = 1" by arith
      with b01 show ?thesis by auto
    next
      case False
      then have "2 \<le> n" by simp
      from small_prime_factor[OF this np]
      obtain q where q: "is_prime q" "q dvd n" "q * q \<le> n" by blast
      have "q < 8 * E"
      proof (rule ccontr)
        assume "\<not> q < 8 * E"
        then have "8 * E \<le> q" by simp
        then have "(8 * E) * (8 * E) \<le> q * q" by (intro mult_le_mono)
        with q(3) n assms(2) show False by linarith
      qed
      with q c n len show ?thesis unfolding crossed_def by blast
    qed
  qed
  with f len show ?thesis
    unfolding findPrimes_def Let_def c2 by blast
qed

section \<open>The enumeration\<close>

lemma fmt_cursor_of:
  "fmt_int (CHAR_BIT * int (pointind (cursor_of n)) + sint (ind (cursor_of n))) @ newline = line_of n"
proof -
  have "int (8 * (n div 8) + n mod 8) = int n" by simp
  then have "8 * int (n div 8) + int (n mod 8) = int n"
    by (simp only: of_nat_add of_nat_mult of_nat_numeral)
  then have "CHAR_BIT * int (pointind (cursor_of n)) + sint (ind (cursor_of n)) = int n"
    by (simp add: cursor_of_def CHAR_BIT_def sint_small[OF mod8_small])
  then show ?thesis by (simp add: line_of_def)
qed

lemma printLoop_exit: "printLoop junk buf e file (c\<lparr>ind := - 1\<rparr>) = Some file"
  by (subst printLoop.simps) simp

lemma printLoop_step:
  assumes "searchForZero junk buf (cursor_of n) e = Some c1"
  shows "printLoop junk buf e file (cursor_of n) = printLoop junk buf e (file @ line_of n) c1"
  using assms live_not_sentinel[OF live_cursor_of[of n]]
  by (subst printLoop.simps) (simp add: fmt_cursor_of)

lemma filter_upt_first:
  assumes "a \<le> m" "m < b" "P m" "\<And>j. a \<le> j \<Longrightarrow> j < m \<Longrightarrow> \<not> P j"
  shows "filter P [a..<b] = m # filter P [Suc m..<b]"
proof -
  have "[a..<b] = [a..<m] @ m # [Suc m..<b]"
    using assms(1,2) by (metis le_add_diff_inverse less_imp_le_nat upt_add_eq_append upt_conv_Cons)
  moreover have "filter P [a..<m] = []" using assms(4) by (auto simp: filter_empty_conv)
  ultimately show ?thesis using assms(3) by simp
qed

lemma filter_upt_none:
  assumes "\<And>j. a \<le> j \<Longrightarrow> j < b \<Longrightarrow> \<not> P j"
  shows "filter P [a..<b] = []"
  using assms by (auto simp: filter_empty_conv)

lemma printLoop_lines:
  "printLoop junk buf e out (cursor_of n) =
     Some (out @ line_of n
             @ concat (map line_of (filter (\<lambda>m. \<not> bit_rd junk buf m) [Suc n..<8 * e])))"
proof (induction "8 * e - n" arbitrary: n out rule: less_induct)
  case less
  show ?case
  proof (cases rule: searchForZero_cases[of n e junk buf])
    case (found m)
    have "8 * e - m < 8 * e - n" using found(1,2) by arith
    from less[OF this, of "out @ line_of n"]
    have "printLoop junk buf e (out @ line_of n) (cursor_of m) =
       Some ((out @ line_of n) @ line_of m
             @ concat (map line_of (filter (\<lambda>m. \<not> bit_rd junk buf m) [Suc m..<8 * e])))" .
    moreover have "filter (\<lambda>m. \<not> bit_rd junk buf m) [Suc n..<8 * e]
                     = m # filter (\<lambda>m. \<not> bit_rd junk buf m) [Suc m..<8 * e]"
      using found by (intro filter_upt_first) simp_all
    ultimately show ?thesis
      unfolding printLoop_step[OF found(5)] by simp
  next
    case exhausted
    have "filter (\<lambda>m. \<not> bit_rd junk buf m) [Suc n..<8 * e] = []"
      using exhausted(1) by (intro filter_upt_none) simp
    then show ?thesis
      unfolding printLoop_step[OF exhausted(2)] printLoop_exit by simp
  qed
qed

lemma printPrimes_lines:
  "printPrimes junk buf e =
     Some (concat (map line_of (filter (\<lambda>m. \<not> bit_rd junk buf m) [1..<8 * e])))"
proof -
  have c0: "\<lparr>current = 0, pointind = 0, ind = 0\<rparr> = cursor_of 0"
    by (simp add: cursor_of_def)
  show ?thesis
  proof (cases rule: searchForZero_cases[of 0 e junk buf])
    case (found m)
    have "filter (\<lambda>m. \<not> bit_rd junk buf m) [Suc 0..<8 * e]
                     = m # filter (\<lambda>m. \<not> bit_rd junk buf m) [Suc m..<8 * e]"
      using found by (intro filter_upt_first) simp_all
    then show ?thesis
      unfolding printPrimes_def c0 found(5) by (simp add: printLoop_lines)
  next
    case exhausted
    have "filter (\<lambda>m. \<not> bit_rd junk buf m) [Suc 0..<8 * e] = []"
      using exhausted(1) by (intro filter_upt_none) simp
    then show ?thesis
      unfolding printPrimes_def c0 exhausted(2) by (simp add: printLoop_exit)
  qed
qed

lemma sieve_output:
  assumes "0 < B" "8 * B \<le> (8 * E) * (8 * E)"
  shows "\<exists>buf'. findPrimes junk (replicate B 0) E B = Some buf'
           \<and> printPrimes junk buf' B = Some (concat (map line_of (primes_below (8 * B))))"
proof -
  from findPrimes_sieves[OF assms, of junk]
  obtain buf' where f: "findPrimes junk (replicate B 0) E B = Some buf'"
    and len: "length buf' = B"
    and bits: "\<And>n. n < 8 * B \<Longrightarrow> bit_at buf' n \<longleftrightarrow> \<not> is_prime n"
    by blast
  have a: "filter (\<lambda>m. \<not> bit_rd junk buf' m) [1..<8 * B] = filter is_prime [1..<8 * B]"
    by (rule filter_cong) (simp_all add: bit_rd_inside len bits)
  have b: "[1..<8 * B] = 1 # [2..<8 * B]"
    using assms(1) by (simp add: upt_conv_Cons numeral_2_eq_2)
  have c: "filter is_prime (1 # [2..<8 * B]) = filter is_prime [2..<8 * B]"
    using is_prime_ge2[of 1] by auto
  have "filter (\<lambda>m. \<not> bit_rd junk buf' m) [1..<8 * B] = primes_below (8 * B)"
    unfolding a primes_below_def unfolding b c ..
  with f show ?thesis
    unfolding printPrimes_lines by simp
qed

lemma endsqrt_covers: "8 * B \<le> (8 * (isqrt B + 1)) * (8 * (isqrt B + 1))"
proof -
  from isqrt_bounds[of B] have "B \<le> (isqrt B + 1) * (isqrt B + 1)" by simp
  then have "8 * B \<le> 64 * ((isqrt B + 1) * (isqrt B + 1))" by simp
  then show ?thesis by (simp add: algebra_simps)
qed

section \<open>The sieve with the tighter cutoff\<close>

lemma tight_guard:
  "CHAR_BIT * int (pointind (cursor_of n)) + sint (ind (cursor_of n)) < int L \<longleftrightarrow> n < L"
proof -
  have "int (8 * (n div 8) + n mod 8) = int n" by simp
  then have "8 * int (n div 8) + int (n mod 8) = int n"
    by (simp only: of_nat_add of_nat_mult of_nat_numeral)
  then have "CHAR_BIT * int (pointind (cursor_of n)) + sint (ind (cursor_of n)) = int n"
    by (simp add: cursor_of_def CHAR_BIT_def sint_small[OF mod8_small])
  then show ?thesis by simp
qed

lemma searchLoopTight_cursor_of:
  "searchLoopTight junk buf L (cursor_of n) =
     Some (case find (\<lambda>m. \<not> bit_rd junk buf m) [n..<L] of
             Some m \<Rightarrow> cursor_of m
           | None \<Rightarrow> (cursor_of (max n L))\<lparr>ind := - 1\<rparr>)"
proof (induction "L - n" arbitrary: n rule: less_induct)
  case less
  show ?case
  proof (cases "n < L")
    case False
    then show ?thesis
      by (subst searchLoopTight.simps) (simp add: tight_guard max_def)
  next
    case True
    have upt: "[n..<L] = n # [Suc n..<L]"
      using True by (simp add: upt_conv_Cons)
    have tmp: "temp_of (rd junk buf (current (cursor_of n))) (ind (cursor_of n)) = 0
                 \<longleftrightarrow> \<not> bit_rd junk buf n"
      using temp_of_cursor[of junk buf n] by (simp add: cursor_of_def)
    show ?thesis
    proof (cases "bit_rd junk buf n")
      case False
      with True tmp upt show ?thesis
        by (subst searchLoopTight.simps) (simp add: tight_guard)
    next
      case set: True
      have "L - Suc n < L - n" using True by arith
      from less[OF this] have IH: "searchLoopTight junk buf L (cursor_of (Suc n)) =
         Some (case find (\<lambda>m. \<not> bit_rd junk buf m) [Suc n..<L] of
             Some m \<Rightarrow> cursor_of m
           | None \<Rightarrow> (cursor_of (max (Suc n) L))\<lparr>ind := - 1\<rparr>)" .
      have mx: "max (Suc n) L = max n L" using True by arith
      show ?thesis
        apply (subst searchLoopTight.simps)
        using True tmp set upt IH[unfolded mx]
        by (simp add: advance_cursor_of tight_guard)
    qed
  qed
qed

lemma searchForZeroTight_cases:
  obtains (found) m where "n < m" "m < L" "\<not> bit_rd junk buf m"
      "\<And>j. n < j \<Longrightarrow> j < m \<Longrightarrow> bit_rd junk buf j"
      "searchForZeroTight junk buf (cursor_of n) L = Some (cursor_of m)"
  | (exhausted) c where "\<And>j. n < j \<Longrightarrow> j < L \<Longrightarrow> bit_rd junk buf j"
      "searchForZeroTight junk buf (cursor_of n) L = Some (c\<lparr>ind := - 1\<rparr>)"
proof (cases "find (\<lambda>m. \<not> bit_rd junk buf m) [Suc n..<L]")
  case None
  then have a: "\<And>j. n < j \<Longrightarrow> j < L \<Longrightarrow> bit_rd junk buf j"
    unfolding find_upt_None by auto
  have "searchForZeroTight junk buf (cursor_of n) L = Some ((cursor_of (max (Suc n) L))\<lparr>ind := - 1\<rparr>)"
    unfolding searchForZeroTight_def advance_cursor_of searchLoopTight_cursor_of None by simp
  from exhausted[OF a this] show ?thesis by blast
next
  case (Some m)
  then have a: "n < m" "m < L" "\<not> bit_rd junk buf m"
    "\<And>j. n < j \<Longrightarrow> j < m \<Longrightarrow> bit_rd junk buf j"
    unfolding find_upt_Some by auto
  have "searchForZeroTight junk buf (cursor_of n) L = Some (cursor_of m)"
    unfolding searchForZeroTight_def advance_cursor_of searchLoopTight_cursor_of Some by simp
  from found[OF a this] show ?thesis by blast
qed

lemma findLoopTight_exit: "findLoopTight junk L e buf (c\<lparr>ind := - 1\<rparr>) = Some buf"
  by (subst findLoopTight.simps) simp

lemma findLoopTight_step:
  assumes "eliminateMults buf (pointind (cursor_of p)) (ind (cursor_of p)) e = Some buf1"
    and "searchForZeroTight junk buf1 (cursor_of p) L = Some c1"
  shows "findLoopTight junk L e buf (cursor_of p) = findLoopTight junk L e buf1 c1"
  using assms live_not_sentinel[OF live_cursor_of[of p]]
  by (subst findLoopTight.simps) simp

lemma findLoopTight_sieves:
  assumes "2 \<le> p" "sound buf" "crossed buf p"
  shows "\<exists>buf'. findLoopTight junk L (length buf) buf (cursor_of p) = Some buf'
           \<and> length buf' = length buf \<and> sound buf' \<and> crossed buf' L
           \<and> (\<forall>n. bit_at buf n \<longrightarrow> bit_at buf' n)"
  using assms
proof (induction "L - p" arbitrary: p buf rule: less_induct)
  case less
  from \<open>2 \<le> p\<close> have pos: "0 < p" by simp
  from eliminateMults_at[OF pos order_refl, of buf]
  obtain buf1 where el: "eliminateMults buf (pointind (cursor_of p)) (ind (cursor_of p)) (length buf) = Some buf1"
    and len: "length buf1 = length buf"
    and bits: "\<And>n. bit_at buf1 n \<longleftrightarrow>
                 bit_at buf n \<or> (p * p \<le> n \<and> n < 8 * length buf \<and> p dvd (n - p * p))"
    by blast
  from sieve_round[OF less.prems(1,2,3) len bits]
  have s1: "sound buf1" and c1: "crossed buf1 (Suc p)" .
  have mono: "bit_at buf n \<Longrightarrow> bit_at buf1 n" for n unfolding bits by simp
  show ?case
  proof (cases rule: searchForZeroTight_cases[of p L junk buf1])
    case (found m)
    from crossed_skip[OF s1 c1 found(1) found(4)] have cm: "crossed buf1 m" by simp
    have "L - m < L - p" using found(1,2) by arith
    moreover have "2 \<le> m" using found(1) less.prems(1) by simp
    ultimately obtain buf' where
      "findLoopTight junk L (length buf1) buf1 (cursor_of m) = Some buf'"
      "length buf' = length buf1" "sound buf'" "crossed buf' L"
      "\<forall>n. bit_at buf1 n \<longrightarrow> bit_at buf' n"
      using less.hyps[OF _ _ s1 cm] by blast
    with mono show ?thesis
      unfolding findLoopTight_step[OF el found(5)] len by blast
  next
    case (exhausted c)
    have "crossed buf1 L"
    proof (cases "p < L")
      case True
      from crossed_skip[OF s1 c1 True exhausted(1)] show ?thesis by simp
    next
      case False
      then have "L \<le> Suc p" by simp
      with c1 show ?thesis by (rule crossed_less)
    qed
    with s1 len mono show ?thesis
      unfolding findLoopTight_step[OF el exhausted(2)] findLoopTight_exit by simp
  qed
qed

lemma sieved_bits:
  assumes "length buf' = B" "sound buf'" "crossed buf' L" "8 * B \<le> L * L"
    and "bit_at buf' 0" "bit_at buf' 1" "n < 8 * B"
  shows "bit_at buf' n \<longleftrightarrow> \<not> is_prime n"
proof
  assume "bit_at buf' n"
  with assms have "n < 2 \<or> \<not> is_prime n" by (simp add: sound_def)
  then show "\<not> is_prime n" using is_prime_ge2[of n] by auto
next
  assume np: "\<not> is_prime n"
  show "bit_at buf' n"
  proof (cases "n < 2")
    case True
    then have "n = 0 \<or> n = 1" by arith
    with assms(5,6) show ?thesis by auto
  next
    case False
    then have "2 \<le> n" by simp
    from small_prime_factor[OF this np]
    obtain q where q: "is_prime q" "q dvd n" "q * q \<le> n" by blast
    have "q < L"
    proof (rule ccontr)
      assume "\<not> q < L"
      then have "L \<le> q" by simp
      then have "L * L \<le> q * q" by (intro mult_le_mono)
      with q(3) assms(4,7) show False by linarith
    qed
    with q assms(1,3,7) show ?thesis unfolding crossed_def by blast
  qed
qed

lemma findPrimesTight_sieves:
  assumes "0 < B" "8 * B \<le> L * L"
  shows "\<exists>buf'. findPrimesTight junk (replicate B 0) L B = Some buf' \<and> length buf' = B
           \<and> (\<forall>n < 8 * B. bit_at buf' n \<longleftrightarrow> \<not> is_prime n)"
proof -
  let ?b = "setToOne (setToOne (replicate B 0) 0 0) 0 1"
  have c2: "\<lparr>current = 0, pointind = 0, ind = 2\<rparr> = cursor_of 2"
    by (simp add: cursor_of_def)
  have lb: "length ?b = B" by simp
  from findLoopTight_sieves[OF order_refl first_two_sound[OF assms(1)], of junk L]
  obtain buf' where f: "findLoopTight junk L B ?b (cursor_of 2) = Some buf'"
    and len: "length buf' = B" and s: "sound buf'" and c: "crossed buf' L"
    and mono: "\<And>n. bit_at ?b n \<Longrightarrow> bit_at buf' n"
    unfolding lb by blast
  have l: "0 < length (replicate B (0::byte))" using assms by simp
  have b01: "bit_at buf' 0" "bit_at buf' 1"
    using mono[of 0] mono[of 1] bit_at_first_two[OF l] by simp_all
  from sieved_bits[OF len s c assms(2) b01] f len show ?thesis
    unfolding findPrimesTight_def Let_def c2 by blast
qed

lemma tight_covers: "8 * B \<le> (isqrt (8 * B) + 1) * (isqrt (8 * B) + 1)"
  using isqrt_bounds[of "8 * B"] by simp

lemma sieves_agree:
  assumes "0 < B" "8 * B \<le> (8 * E) * (8 * E)" "8 * B \<le> L * L"
  shows "\<exists>buf'. findPrimes junk (replicate B 0) E B = Some buf'
               \<and> findPrimesTight junk' (replicate B 0) L B = Some buf'"
proof -
  from findPrimes_sieves[OF assms(1,2), of junk]
  obtain b1 where f1: "findPrimes junk (replicate B 0) E B = Some b1" and l1: "length b1 = B"
    and bits1: "\<And>n. n < 8 * B \<Longrightarrow> bit_at b1 n \<longleftrightarrow> \<not> is_prime n" by blast
  from findPrimesTight_sieves[OF assms(1,3), of junk']
  obtain b2 where f2: "findPrimesTight junk' (replicate B 0) L B = Some b2" and l2: "length b2 = B"
    and bits2: "\<And>n. n < 8 * B \<Longrightarrow> bit_at b2 n \<longleftrightarrow> \<not> is_prime n" by blast
  have "b1 = b2"
    by (rule buffer_eqI) (simp_all add: l1 l2 bits1 bits2)
  with f1 f2 show ?thesis by simp
qed

section \<open>The run of main\<close>

lemma run_power_ok:
  assumes "3 \<le> P" "P < 34"
  shows "run_power junk True True (int P) err =
           Some \<lparr>stderr = err @ ''power = '' @ fmt_int (int P) @ newline,
                 primes_txt = Some (concat (map line_of (primes_below (2 ^ P)))),
                 status = 0\<rparr>"
proof -
  have n: "nat (int P - 3) = P - 3" by simp
  have B: "0 < (2::nat) ^ (P - 3)" by simp
  from sieve_output[OF B endsqrt_covers, of junk]
  obtain buf' where
    f: "findPrimes junk (replicate (2 ^ (P - 3)) 0) (isqrt (2 ^ (P - 3)) + 1) (2 ^ (P - 3)) = Some buf'"
    and p: "printPrimes junk buf' (2 ^ (P - 3)) = Some (concat (map line_of (primes_below (2 ^ P))))"
    unfolding pow8[OF assms(1)] by blast
  from assms(2) have "\<not> 34 \<le> int P" by simp
  moreover from f have
    "findPrimes junk (replicate (2 ^ (P - 3)) 0) (Suc (isqrt (2 ^ (P - 3)))) (2 ^ (P - 3)) = Some buf'"
    by simp
  ultimately show ?thesis
    unfolding run_power_def Let_def n by (simp add: p)
qed

lemma run_power_file:
  "map_option primes_txt (run_power junk co fo p err) = map_option primes_txt (run_power junk co fo p err')"
  "map_option status (run_power junk co fo p err) = map_option status (run_power junk co fo p err')"
  unfolding run_power_def Let_def
  by (auto simp: bind_eq_Some_conv bind_eq_None_conv split: option.splits Option.bind_splits)

lemma choose_power_absent: "length argv \<noteq> 2 \<Longrightarrow> choose_power argv = (20, [])"
  by (simp add: choose_power_def POWER_def)

lemma choose_power_invalid:
  "length argv = 2 \<Longrightarrow> atoi (argv ! 1) < 3 \<Longrightarrow>
     choose_power argv = (20, ''Invalid value for power'' @ newline)"
  by (simp add: choose_power_def POWER_def Let_def)

lemma atoi_20: "atoi ''20'' = 20"
  by code_simp

lemma fmt_int_20: "fmt_int 20 = ''20''"
  by code_simp

lemma choose_power_20: "choose_power [a0, ''20''] = (20, [])"
  by (simp add: choose_power_def Let_def atoi_20)

lemma main_20:
  "main junk True True [a0, ''20''] =
     Some \<lparr>stderr = ''power = 20'' @ newline,
           primes_txt = Some (concat (map line_of (primes_below (2 ^ 20)))),
           status = 0\<rparr>"
proof -
  have "run_power junk True True (int 20) [] =
     Some \<lparr>stderr = [] @ ''power = '' @ fmt_int (int 20) @ newline,
           primes_txt = Some (concat (map line_of (primes_below (2 ^ 20)))),
           status = 0\<rparr>"
    by (rule run_power_ok) simp_all
  then show ?thesis
    unfolding main_def choose_power_20 by (simp add: fmt_int_20)
qed

lemma main_fallback:
  assumes "length argv \<noteq> 2 \<or> atoi (argv ! 1) < 3"
  shows "main junk True True argv =
     Some \<lparr>stderr = (if length argv \<noteq> 2 then [] else ''Invalid value for power'' @ newline)
                       @ ''power = 20'' @ newline,
           primes_txt = Some (concat (map line_of (primes_below (2 ^ 20)))),
           status = 0\<rparr>"
proof -
  have r: "run_power junk True True (int 20) err =
     Some \<lparr>stderr = err @ ''power = '' @ fmt_int (int 20) @ newline,
           primes_txt = Some (concat (map line_of (primes_below (2 ^ 20)))),
           status = 0\<rparr>" for err
    by (rule run_power_ok) simp_all
  show ?thesis
  proof (cases "length argv \<noteq> 2")
    case True
    with r[of "[]"] show ?thesis
      unfolding main_def choose_power_absent[OF True] by (simp add: fmt_int_20)
  next
    case False
    with assms have a: "length argv = 2" "atoi (argv ! 1) < 3" by simp_all
    from r[of "''Invalid value for power'' @ newline"] a(1) show ?thesis
      unfolding main_def choose_power_invalid[OF a] by (simp add: fmt_int_20)
  qed
qed

lemma main_fallback_file:
  assumes "length argv \<noteq> 2 \<or> atoi (argv ! 1) < 3"
  shows "map_option primes_txt (main junk co fo argv)
           = map_option primes_txt (main junk co fo [a0, ''20''])"
    "map_option status (main junk co fo argv) = map_option status (main junk co fo [a0, ''20''])"
proof -
  from assms obtain err where c: "choose_power argv = (20, err)"
    using choose_power_absent[of argv] choose_power_invalid[of argv] by (cases "length argv = 2") auto
  show "map_option primes_txt (main junk co fo argv)
           = map_option primes_txt (main junk co fo [a0, ''20''])"
    unfolding main_def c choose_power_20 by (simp add: run_power_file(1)[of junk co fo 20 err "[]"])
  show "map_option status (main junk co fo argv) = map_option status (main junk co fo [a0, ''20''])"
    unfolding main_def c choose_power_20 by (simp add: run_power_file(2)[of junk co fo 20 err "[]"])
qed

lemma primes_below_12: "primes_below 12 = [2, 3, 5, 7, 11]"
  by code_simp

lemma primes_below_split:
  assumes "12 \<le> N"
  shows "primes_below N = [2, 3, 5, 7, 11] @ filter is_prime [12..<N]"
proof -
  from assms have N: "N = 12 + (N - 12)" by simp
  have "[2..<12 + (N - 12)] = [2..<12] @ [12..<12 + (N - 12)]"
    by (rule upt_add_eq_append) simp
  then have "[2..<N] = [2..<12] @ [12..<N]"
    using N by simp
  then have "primes_below N = primes_below 12 @ filter is_prime [12..<N]"
    unfolding primes_below_def by (simp only: filter_append)
  then show ?thesis unfolding primes_below_12 .
qed

lemma lines_first_five:
  "concat (map line_of [2, 3, 5, 7, 11]) = ''2\<newline>3\<newline>5\<newline>7\<newline>11\<newline>''"
  by code_simp

lemma longer_text: "''2\<newline>3\<newline>5\<newline>7\<newline>11\<newline>'' @ rest \<noteq> ''2\<newline>3\<newline>5\<newline>7\<newline>''"
  by simp

lemma output_differs:
  assumes "12 \<le> N"
  shows "concat (map line_of (primes_below N)) \<noteq> ''2\<newline>3\<newline>5\<newline>7\<newline>''"
proof -
  have "concat (map line_of (primes_below N)) =
          ''2\<newline>3\<newline>5\<newline>7\<newline>11\<newline>'' @ concat (map line_of (filter is_prime [12..<N]))"
    unfolding primes_below_split[OF assms] by (simp only: map_append concat_append lines_first_five)
  then show ?thesis by (simp only: longer_text not_False_eq_True)
qed

section \<open>The lines are decimal numbers\<close>

lemma digit_char:
  assumes "d < 10"
  shows "isdigit (char_of (48 + d))" "(of_char (char_of (48 + d)) :: int) - 48 = int d"
    "\<not> isspace (char_of (48 + d))" "char_of (48 + d) \<noteq> CHR ''-''" "char_of (48 + d) \<noteq> CHR ''+''"
    "char_of (48 + d) \<noteq> CHR 0x0A"
proof -
  have v: "(of_char (char_of (48 + d)) :: nat) = 48 + d"
    using assms by (simp add: of_char_of)
  show "isdigit (char_of (48 + d))" unfolding isdigit_def v using assms by simp
  have "(of_char (char_of (48 + d)) :: int) = int (of_char (char_of (48 + d)))"
    by (simp only: of_nat_of_char)
  then show "(of_char (char_of (48 + d)) :: int) - 48 = int d" unfolding v by simp
  have ne: "char_of (48 + d) \<noteq> c" if "(of_char c :: nat) < 48" for c
    using that v by auto
  show "\<not> isspace (char_of (48 + d))"
    unfolding isspace_def using ne by auto
  show "char_of (48 + d) \<noteq> CHR ''-''" "char_of (48 + d) \<noteq> CHR ''+''"
    "char_of (48 + d) \<noteq> CHR 0x0A"
    by (rule ne, simp)+
qed

lemma digits_nonempty: "digits n \<noteq> []"
  by (subst digits.simps) simp

lemma digits_all: "c \<in> set (digits n) \<Longrightarrow> isdigit c \<and> c \<noteq> CHR 0x0A"
proof (induction n rule: digits.induct)
  case (1 n)
  show ?case
  proof (cases "n < 10")
    case True
    with 1(2) have "c = char_of (48 + n)" by (subst (asm) digits.simps) simp
    with digit_char[OF True] show ?thesis by simp
  next
    case False
    have m: "n mod 10 < 10" by simp
    from 1(2) False have "c \<in> set (digits (n div 10)) \<or> c = char_of (48 + n mod 10)"
      by (subst (asm) digits.simps) auto
    with 1(1)[OF False] digit_char[OF m] show ?thesis by auto
  qed
qed

lemma decimal_digits_digits:
  "\<exists>k. decimal_digits acc (digits n @ r) = decimal_digits (acc * 10 ^ k + int n) r"
proof (induction n arbitrary: acc r rule: digits.induct)
  case (1 n)
  show ?case
  proof (cases "n < 10")
    case True
    from digit_char[OF True] have
      "decimal_digits acc (digits n @ r) = decimal_digits (acc * 10 ^ 1 + int n) r"
      by (subst digits.simps) (simp add: True mult.commute)
    then show ?thesis ..
  next
    case False
    have m: "n mod 10 < 10" by simp
    from 1[OF False, of acc "char_of (48 + n mod 10) # r"]
    obtain k where k: "decimal_digits acc (digits (n div 10) @ char_of (48 + n mod 10) # r)
                        = decimal_digits (acc * 10 ^ k + int (n div 10)) (char_of (48 + n mod 10) # r)"
      by blast
    have n: "int n = 10 * int (n div 10) + int (n mod 10)"
      by (metis of_nat_add of_nat_mult mult_div_mod_eq of_nat_numeral)
    have "decimal_digits acc (digits n @ r)
            = decimal_digits acc (digits (n div 10) @ char_of (48 + n mod 10) # r)"
      by (subst digits.simps) (simp add: False)
    also have "\<dots> = decimal_digits (10 * (acc * 10 ^ k + int (n div 10)) + int (n mod 10)) r"
      unfolding k using digit_char[OF m] by simp
    also have "10 * (acc * 10 ^ k + int (n div 10)) + int (n mod 10) = acc * 10 ^ Suc k + int n"
      unfolding n by (simp add: algebra_simps)
    finally show ?thesis ..
  qed
qed

lemma digits_head: "\<exists>c cs. digits n = c # cs \<and> isdigit c \<and> \<not> isspace c \<and> c \<noteq> CHR ''-'' \<and> c \<noteq> CHR ''+''"
proof (induction n rule: digits.induct)
  case (1 n)
  show ?case
  proof (cases "n < 10")
    case True
    with digit_char[OF True] show ?thesis by (subst digits.simps) simp
  next
    case False
    from 1[OF False] obtain c cs where "digits (n div 10) = c # cs"
      "isdigit c \<and> \<not> isspace c \<and> c \<noteq> CHR ''-'' \<and> c \<noteq> CHR ''+''" by blast
    with False show ?thesis by (subst digits.simps) simp
  qed
qed

lemma decimal_value_line_of: "decimal_value (line_of n) = int n"
proof -
  obtain c cs where d: "digits n = c # cs" "\<not> isspace c" "c \<noteq> CHR ''-''" "c \<noteq> CHR ''+''"
    using digits_head[of n] by blast
  have nl: "\<not> isdigit (CHR 0x0A)" by (simp add: isdigit_def)
  from decimal_digits_digits[of 0 n newline]
  have "decimal_digits 0 (digits n @ newline) = int n"
    using nl by (auto simp: newline_def)
  then show ?thesis
    using d by (simp add: decimal_value_def line_of_def fmt_int_def)
qed

lemma sint32_small:
  fixes v :: int
  assumes "- (2 ^ 31) \<le> v" "v < 2 ^ 31"
  shows "sint (word_of_int v :: 32 word) = v"
  using assms by (simp add: signed_of_int signed_take_bit_int_eq_self)

lemma atoi_in_int:
  assumes "- (2 ^ 31) \<le> decimal_value s" "decimal_value s < 2 ^ 31"
  shows "atoi s = decimal_value s"
proof -
  have "strtol s = decimal_value s"
    using assms by (simp add: strtol_def Let_def LONG_MIN_def LONG_MAX_def)
  then show ?thesis
    unfolding atoi_def using sint32_small[OF assms] by simp
qed

lemma atoi_line_of:
  assumes "n < 2 ^ 31"
  shows "atoi (line_of n) = int n"
proof -
  from assms have "int n < 2 ^ 31" by (metis of_nat_less_iff of_nat_numeral of_nat_power)
  then show ?thesis
    using atoi_in_int[of "line_of n"] by (simp add: decimal_value_line_of)
qed

lemma decimal_value_no_number:
  assumes "s = [] \<or> \<not> (isspace (hd s) \<or> isdigit (hd s) \<or> hd s = CHR ''-'' \<or> hd s = CHR ''+'')"
  shows "decimal_value s = 0" "atoi s = 0"
proof -
  show d: "decimal_value s = 0"
  proof (cases s)
    case Nil
    then show ?thesis by (simp add: decimal_value_def)
  next
    case (Cons c cs)
    with assms show ?thesis by (simp add: decimal_value_def)
  qed
  show "atoi s = 0"
    using atoi_in_int[of s] by (simp add: d)
qed

lemma line_of_one_line: "line_of n = fmt_int (int n) @ newline \<and> CHR 0x0A \<notin> set (fmt_int (int n))"
  using digits_all[of "CHR 0x0A" n] by (auto simp: line_of_def fmt_int_def)

section \<open>Claims about setToOne and eliminateMults\<close>

lemma stride_exists:
  fixes p n :: nat
  shows "(\<exists>j. n = p * p + j * p) \<longleftrightarrow> p * p \<le> n \<and> p dvd (n - p * p)"
proof
  assume "\<exists>j. n = p * p + j * p"
  then obtain j where "n = p * p + j * p" ..
  then show "p * p \<le> n \<and> p dvd (n - p * p)" by simp
next
  assume a: "p * p \<le> n \<and> p dvd (n - p * p)"
  then obtain j where "n - p * p = p * j" by (auto simp: dvd_def)
  with a have "n = p * p + j * p" by (simp add: mult.commute)
  then show "\<exists>j. n = p * p + j * p" ..
qed

text \<open>
  C2. Let the buffer have \<open>2 ^ (P - 3)\<close> bytes, \<open>end\<close> be its end, and let
  \<open>(pointind, ind)\<close> with \<open>0 \<le> ind \<le> 7\<close> stand on \<open>p = 8 * pointind + ind\<close>,
  \<open>p > 0\<close> (so in particular on any prime, whether its bit is clear or not), with
  \<open>8 * pointind\<^sup>2 + 2 * pointind * ind\<close>, which the source computes in \<open>long\<close>, below
  \<open>2 ^ 63\<close>: this holds for every \<open>pointind < 2 ^ 30\<close>, hence for every \<open>p < 2 ^ 33\<close>. Then
  \<open>eliminateMults\<close> returns, the buffer keeps its length, and a bit is set afterwards
  exactly if it was set before or its index is one of \<open>p\<^sup>2, p\<^sup>2 + p, p\<^sup>2 + 2p, \<dots>\<close> below
  \<open>N = 2 ^ P\<close>: these bits are set, and no other bit changes. When \<open>p\<^sup>2 \<ge> N\<close> the
  buffer returned is the buffer given.
\<close>

theorem eliminateMults_marks_from_square:
  assumes "3 \<le> P" and "length buf = 2 ^ (P - 3)"
    and "0 \<le> sint r" and "sint r \<le> 7"
    and "p = 8 * q + nat (sint r)" and "0 < p"
    and "8 * q * q + 2 * q * nat (sint r) < 2 ^ 63"
  shows "\<exists>buf'. eliminateMults buf q r (2 ^ (P - 3)) = Some buf'
           \<and> length buf' = length buf
           \<and> (\<forall>n. bit_at buf' n \<longleftrightarrow> bit_at buf n \<or> (n < 2 ^ P \<and> (\<exists>j. n = p * p + j * p)))
           \<and> (2 ^ P \<le> p * p \<longrightarrow> buf' = buf)"
proof -
  have e: "2 ^ (P - 3) \<le> length buf" using assms(2) by simp
  from eliminateMults_spec[OF assms(3,4,5,6) e]
  obtain buf' where r: "eliminateMults buf q r (2 ^ (P - 3)) = Some buf'"
    and len: "length buf' = length buf"
    and bits: "\<And>n. bit_at buf' n \<longleftrightarrow>
                 bit_at buf n \<or> (p * p \<le> n \<and> n < 8 * 2 ^ (P - 3) \<and> p dvd (n - p * p))"
    by blast
  have b: "bit_at buf' n \<longleftrightarrow> bit_at buf n \<or> (n < 2 ^ P \<and> (\<exists>j. n = p * p + j * p))" for n
    unfolding bits stride_exists pow8[OF assms(1)] by blast
  have "buf' = buf" if "2 ^ P \<le> p * p"
  proof -
    from that have "8 * 2 ^ (P - 3) \<le> p * p" by (simp add: pow8[OF assms(1)])
    from eliminateMults_noop[OF assms(3,4,5) this, of buf] r show ?thesis by simp
  qed
  with r len b show ?thesis by blast
qed

theorem eliminateMults_marks_from_square_witness:
  "3 \<le> (3::nat) \<and> length [0xC0 :: byte] = 2 ^ (3 - 3)
   \<and> 0 \<le> sint (2 :: byte) \<and> sint (2 :: byte) \<le> 7
   \<and> (2::nat) = 8 * 0 + nat (sint (2 :: byte)) \<and> 0 < (2::nat)
   \<and> 8 * 0 * 0 + 2 * 0 * nat (sint (2 :: byte)) < (2::nat) ^ 63
   \<and> eliminateMults [0xC0] 0 2 (2 ^ (3 - 3)) = Some [0xCA]
   \<and> (\<exists>buf'. eliminateMults [0xC0] 0 2 (2 ^ (3 - 3)) = Some buf'
           \<and> length buf' = length [0xC0 :: byte]
           \<and> (\<forall>n. bit_at buf' n \<longleftrightarrow> bit_at [0xC0] n \<or> (n < 2 ^ 3 \<and> (\<exists>j. n = 2 * 2 + j * 2)))
           \<and> (2 ^ 3 \<le> (2::nat) * 2 \<longrightarrow> buf' = [0xC0]))"
proof -
  have h: "3 \<le> (3::nat)" "length [0xC0 :: byte] = 2 ^ (3 - 3)"
    "0 \<le> sint (2 :: byte)" "sint (2 :: byte) \<le> 7"
    "(2::nat) = 8 * 0 + nat (sint (2 :: byte))" "0 < (2::nat)"
    "8 * 0 * 0 + 2 * 0 * nat (sint (2 :: byte)) < (2::nat) ^ 63"
    by simp_all
  have ev: "eliminateMults [0xC0] 0 2 (2 ^ (3 - 3)) = Some [0xCA]"
    by code_simp
  from eliminateMults_marks_from_square[OF h] h ev show ?thesis by blast
qed

text \<open>
  C9. For a cursor with \<open>0 \<le> ind \<le> 7\<close> on a number \<open>p > 0\<close> (in particular on a
  prime) and any buffer that reaches up to \<open>end\<close>, \<open>eliminateMults\<close> returns, and
  run again on the buffer it returned it returns that same buffer.
\<close>

theorem eliminateMults_twice:
  assumes "0 \<le> sint r" and "sint r \<le> 7" and "0 < 8 * q + nat (sint r)"
    and "e \<le> length buf"
  shows "\<exists>buf1. eliminateMults buf q r e = Some buf1 \<and> eliminateMults buf1 q r e = Some buf1"
proof -
  from eliminateMults_spec[OF assms(1,2) refl assms(3,4)]
  obtain buf1 where r: "eliminateMults buf q r e = Some buf1" by blast
  from eliminateMults_idem[OF assms r] r show ?thesis by blast
qed

theorem eliminateMults_twice_witness:
  "0 \<le> sint (3 :: byte) \<and> sint (3 :: byte) \<le> 7 \<and> 0 < 8 * (0::nat) + nat (sint (3 :: byte))
   \<and> 2 \<le> length [0xCA, 0 :: byte]
   \<and> eliminateMults [0xCA, 0] 0 3 2 = Some [0xCA, 0x49]
   \<and> eliminateMults [0xCA, 0x49] 0 3 2 = Some [0xCA, 0x49]
   \<and> (\<exists>buf1. eliminateMults [0xCA, 0] 0 3 2 = Some buf1 \<and> eliminateMults buf1 0 3 2 = Some buf1)"
proof -
  have h: "0 \<le> sint (3 :: byte)" "sint (3 :: byte) \<le> 7"
    "0 < 8 * (0::nat) + nat (sint (3 :: byte))" "2 \<le> length [0xCA, 0 :: byte]"
    by simp_all
  have ev: "eliminateMults [0xCA, 0] 0 3 2 = Some [0xCA, 0x49]"
    "eliminateMults [0xCA, 0x49] 0 3 2 = Some [0xCA, 0x49]"
    by code_simp+
  from eliminateMults_twice[OF h] h ev show ?thesis by blast
qed

text \<open>
  C10. In a freshly zeroed buffer of \<open>2 ^ (P - 3)\<close> bytes, after \<open>setToOne\<close> on byte
  \<open>n div 8\<close> with bit offset \<open>n mod 8\<close>, the scanner's test (\<open>temp\<close>, the byte
  shifted left by the offset and masked with \<open>SPECIAL_ONE\<close>) gives \<open>0x80\<close>, that is
  "set", at the index \<open>n\<close> and \<open>0\<close>, that is "clear", at every other index
  \<open>m < 2 ^ P\<close>.
\<close>

theorem set_then_test:
  assumes "3 \<le> P" and "n < 2 ^ P" and "m < 2 ^ P"
  shows "temp_of (setToOne (replicate (2 ^ (P - 3)) 0) (n div 8) (of_nat (n mod 8)) ! (m div 8))
                 (of_nat (m mod 8))
         = (if m = n then 128 else 0)"
proof -
  let ?z = "replicate (2 ^ (P - 3)) (0 :: byte)"
  let ?b = "setToOne ?z (n div 8) (of_nat (n mod 8))"
  have n: "n < 8 * 2 ^ (P - 3)" and m: "m < 8 * 2 ^ (P - 3)"
    using assms by (simp_all add: pow8)
  have "n div 8 < length ?z" using n by (simp add: div8_less)
  from bit_at_setToOne[OF this, of m] have "bit_at ?b m \<longleftrightarrow> m = n"
    using bit_at_zero[OF m] by simp
  then have "temp_of (?b ! (m div 8)) (of_nat (m mod 8)) = 0 \<longleftrightarrow> m \<noteq> n"
    unfolding temp_of_bit_at by simp
  then show ?thesis
    using temp_of_cases[of "?b ! (m div 8)" "of_nat (m mod 8)"] by auto
qed

theorem set_then_test_witness:
  "3 \<le> (3::nat) \<and> (5::nat) < 2 ^ 3 \<and> (5::nat) < 2 ^ 3 \<and> (6::nat) < 2 ^ 3
   \<and> temp_of (setToOne (replicate (2 ^ (3 - 3)) 0) (5 div 8) (of_nat (5 mod 8)) ! (5 div 8))
              (of_nat (5 mod 8)) = 128
   \<and> temp_of (setToOne (replicate (2 ^ (3 - 3)) 0) (5 div 8) (of_nat (5 mod 8)) ! (6 div 8))
              (of_nat (6 mod 8)) = 0"
proof -
  have h: "3 \<le> (3::nat)" "(5::nat) < 2 ^ 3" "(6::nat) < 2 ^ 3" by simp_all
  from set_then_test[OF h(1) h(2) h(2)] set_then_test[OF h(1) h(2) h(3)] h
  show ?thesis by simp
qed

section \<open>Claims about the scanner, the invariants and the cutoff\<close>

text \<open>
  C3. Started from a cursor with bit offset in \<open>[0, 7]\<close> whose byte pointer and byte
  index agree, standing on the number \<open>n\<close>, \<open>searchForZero\<close> returns, and either the
  cursor returned is live and stands on the smallest \<open>m > n\<close> whose byte lies before
  \<open>end\<close> and whose bit reads clear, or every bit after \<open>n\<close> in a byte before \<open>end\<close>
  reads set and the cursor returned has \<open>ind = -1\<close>. A cursor returned with
  \<open>ind \<noteq> -1\<close> never stands on a bit that reads set. The function returns no buffer:
  it writes to none. (\<open>bit_rd\<close> is the bit as the loop reads it, which for a byte
  inside the buffer is the buffer's bit \<open>bit_at\<close>.)
\<close>

theorem searchForZero_next_clear:
  assumes "live c"
  shows "\<exists>c'. searchForZero junk buf c e = Some c'
           \<and> ((\<exists>m. number_of c < m \<and> m div 8 < e \<and> \<not> bit_rd junk buf m
                    \<and> (\<forall>j. number_of c < j \<and> j < m \<longrightarrow> bit_rd junk buf j)
                    \<and> live c' \<and> number_of c' = m)
                \<or> ((\<forall>j. number_of c < j \<and> j div 8 < e \<longrightarrow> bit_rd junk buf j)
                    \<and> sint (ind c') = - 1))
           \<and> (sint (ind c') \<noteq> - 1 \<longrightarrow> live c' \<and> \<not> bit_rd junk buf (number_of c'))"
proof -
  define n where "n = number_of c"
  have c: "c = cursor_of n" using cursor_of_number_of[OF assms] by (simp add: n_def)
  show ?thesis
  proof (cases rule: searchForZero_cases[of n e junk buf])
    case (found m)
    then show ?thesis
      unfolding c number_of_cursor_of
      by (auto simp: div8_less live_cursor_of number_of_cursor_of)
  next
    case exhausted
    then show ?thesis
      unfolding c number_of_cursor_of
      by (auto simp: div8_less)
  qed
qed

theorem searchForZero_next_clear_witness:
  "live \<lparr>current = 0, pointind = 0, ind = 3\<rparr>
   \<and> searchForZero (\<lambda>_. 0) [0xCA] \<lparr>current = 0, pointind = 0, ind = 3\<rparr> 1
       = Some \<lparr>current = 0, pointind = 0, ind = 5\<rparr>
   \<and> (\<exists>c'. searchForZero (\<lambda>_. 0) [0xCA] \<lparr>current = 0, pointind = 0, ind = 3\<rparr> 1 = Some c'
           \<and> (sint (ind c') \<noteq> - 1 \<longrightarrow>
                 live c' \<and> \<not> bit_rd (\<lambda>_. 0) [0xCA] (number_of c')))"
proof -
  have h: "live \<lparr>current = 0, pointind = 0, ind = 3\<rparr>" by (simp add: live_def)
  have ev: "searchForZero (\<lambda>_. 0) [0xCA] \<lparr>current = 0, pointind = 0, ind = 3\<rparr> 1
       = Some \<lparr>current = 0, pointind = 0, ind = 5\<rparr>"
    by code_simp
  from searchForZero_next_clear[OF h, of "\<lambda>_. 0" "[0xCA]" 1] h ev show ?thesis by blast
qed

text \<open>
  C5. Every write goes through \<open>setToOne\<close>, and \<open>setToOne\<close> clears no bit, whatever
  its arguments; hence neither does one pass of the crossing loop, nor
  \<open>eliminateMults\<close>, nor the sieving loop of \<open>findPrimes\<close>, from any state: a bit set
  before is set in whatever they return. \<open>findPrimes\<close> sets the bits of 0 and 1
  first, so they are set in the buffer the sieving loop starts from, and with them
  every bit set in the buffer given stays set in the buffer \<open>findPrimes\<close> returns.
  The enumeration (\<open>printPrimes\<close>) returns only the text: it writes to no buffer.
\<close>

theorem bits_never_cleared:
  "(bit_at buf n \<longrightarrow> bit_at (setToOne buf p i) n)
   \<and> (bit_at buf n \<longrightarrow> bit_at (fst (elimStep q r (buf, cur, i))) n)
   \<and> (eliminateMults buf q r e = Some buf' \<and> bit_at buf n \<longrightarrow> bit_at buf' n)
   \<and> (findLoop junk endsqrt e buf c = Some buf' \<and> bit_at buf n \<longrightarrow> bit_at buf' n)
   \<and> (0 < length buf \<longrightarrow>
         bit_at (setToOne (setToOne buf 0 0) 0 1) 0 \<and> bit_at (setToOne (setToOne buf 0 0) 0 1) 1)
   \<and> (0 < length buf \<and> findPrimes junk buf endsqrt e = Some buf' \<longrightarrow>
         bit_at buf' 0 \<and> bit_at buf' 1 \<and> (bit_at buf n \<longrightarrow> bit_at buf' n))"
proof (intro conjI impI)
  assume "bit_at buf n"
  then show "bit_at (setToOne buf p i) n" by (rule setToOne_mono)
next
  assume "bit_at buf n"
  then show "bit_at (fst (elimStep q r (buf, cur, i))) n"
    using elimStep_mono[of "(buf, cur, i)" n q r] by simp
next
  assume "eliminateMults buf q r e = Some buf' \<and> bit_at buf n"
  then show "bit_at buf' n" using eliminateMults_mono by blast
next
  assume "findLoop junk endsqrt e buf c = Some buf' \<and> bit_at buf n"
  then show "bit_at buf' n" using findLoop_mono by blast
next
  assume "0 < length buf"
  then show "bit_at (setToOne (setToOne buf 0 0) 0 1) 0" by (simp add: bit_at_first_two)
next
  assume "0 < length buf"
  then show "bit_at (setToOne (setToOne buf 0 0) 0 1) 1" by (simp add: bit_at_first_two)
next
  assume a: "0 < length buf \<and> findPrimes junk buf endsqrt e = Some buf'"
  then have f: "findLoop junk endsqrt e (setToOne (setToOne buf 0 0) 0 1)
                  \<lparr>current = 0, pointind = 0, ind = 2\<rparr> = Some buf'"
    by (simp add: findPrimes_def)
  from a findLoop_mono[OF f, of 0] show "bit_at buf' 0" by (simp add: bit_at_first_two)
next
  assume a: "0 < length buf \<and> findPrimes junk buf endsqrt e = Some buf'"
  then have f: "findLoop junk endsqrt e (setToOne (setToOne buf 0 0) 0 1)
                  \<lparr>current = 0, pointind = 0, ind = 2\<rparr> = Some buf'"
    by (simp add: findPrimes_def)
  from a findLoop_mono[OF f, of 1] show "bit_at buf' 1" by (simp add: bit_at_first_two)
next
  assume a: "0 < length buf \<and> findPrimes junk buf endsqrt e = Some buf'" and b: "bit_at buf n"
  then have f: "findLoop junk endsqrt e (setToOne (setToOne buf 0 0) 0 1)
                  \<lparr>current = 0, pointind = 0, ind = 2\<rparr> = Some buf'"
    by (simp add: findPrimes_def)
  from a b findLoop_mono[OF f, of n] show "bit_at buf' n" by (simp add: bit_at_first_two)
qed

theorem bits_never_cleared_witness:
  "bit_at [0x10] 3 \<and> bit_at (setToOne [0x10] 0 6) 3
   \<and> eliminateMults [0x10] 0 2 1 = Some [0x1A] \<and> bit_at [0x1A] 3
   \<and> findPrimes (\<lambda>_. 0) [0x10] 2 1 = Some [0xDA]
   \<and> bit_at [0xDA] 0 \<and> bit_at [0xDA] 1 \<and> bit_at [0xDA] 3"
proof -
  have ev: "bit_at [0x10] 3" "0 < length [0x10 :: byte]"
    "eliminateMults [0x10] 0 2 1 = Some [0x1A]"
    "findPrimes (\<lambda>_. 0) [0x10] 2 1 = Some [0xDA]"
    by code_simp+
  from bits_never_cleared[of "[0x10]" 3 0 6 0 2 0 1 "[0x1A]" "\<lambda>_. 0" 2
          "\<lparr>current = 0, pointind = 0, ind = 2\<rparr>"]
    bits_never_cleared[of "[0x10]" 3 0 6 0 2 0 1 "[0xDA]" "\<lambda>_. 0" 2
          "\<lparr>current = 0, pointind = 0, ind = 2\<rparr>"]
    ev
  show ?thesis by blast
qed

text \<open>
  C7. With \<open>0 \<le> ind \<le> 7\<close>, the cursor that \<open>eliminateMults\<close> computes for \<open>p\<^sup>2\<close>
  has its bit offset in \<open>[0, 7]\<close> after the one normalisation. One pass of the
  crossing loop from a bit offset in \<open>[0, 7]\<close> ends with the offset in \<open>[0, 7]\<close>
  again, the byte pointer moved by \<open>pointind\<close> or by \<open>pointind + 1\<close> (a single
  carry), and the cursor moved by exactly \<open>p\<close>. The scanner's step keeps a live
  cursor live, and so does every cursor the scanner tests; what \<open>searchForZero\<close>
  returns is live or has \<open>ind = -1\<close>. The two drivers start from live cursors, and
  on \<open>ind = -1\<close> both loops return at once, without another call on the cursor.
\<close>

theorem bit_offset_stays_in_range:
  assumes "0 \<le> sint r" and "sint r \<le> 7" and "0 \<le> sint i" and "sint i \<le> 7"
    and "live c"
  shows "(0 \<le> sint (snd (elimInit q r)) \<and> sint (snd (elimInit q r)) \<le> 7)
    \<and> (\<exists>buf' cur' i'. elimStep q r (buf, cur, i) = (buf', cur', i')
           \<and> 0 \<le> sint i' \<and> sint i' \<le> 7
           \<and> (cur' = cur + q \<or> cur' = cur + q + 1)
           \<and> 8 * cur' + nat (sint i') = (8 * cur + nat (sint i)) + (8 * q + nat (sint r)))
    \<and> live (advance c) \<and> number_of (advance c) = Suc (number_of c)
    \<and> (\<exists>c'. searchForZero junk buf c e = Some c' \<and> (live c' \<or> sint (ind c') = - 1))
    \<and> live \<lparr>current = 0, pointind = 0, ind = 2\<rparr>
    \<and> live \<lparr>current = 0, pointind = 0, ind = 0\<rparr>
    \<and> findLoop junk endsqrt e buf (d\<lparr>ind := - 1\<rparr>) = Some buf
    \<and> printLoop junk buf e file (d\<lparr>ind := - 1\<rparr>) = Some file"
proof -
  have a: "0 \<le> sint (snd (elimInit q r)) \<and> sint (snd (elimInit q r)) \<le> 7"
    using elimInit_range[OF assms(1,2)] by simp
  obtain buf' cur' i' where st: "elimStep q r (buf, cur, i) = (buf', cur', i')"
    by (cases "elimStep q r (buf, cur, i)") auto
  from elimStep_range[OF assms(1,2,3,4) st] st
  have b: "\<exists>buf' cur' i'. elimStep q r (buf, cur, i) = (buf', cur', i')
           \<and> 0 \<le> sint i' \<and> sint i' \<le> 7
           \<and> (cur' = cur + q \<or> cur' = cur + q + 1)
           \<and> 8 * cur' + nat (sint i') = (8 * cur + nat (sint i)) + (8 * q + nat (sint r))"
    by blast
  have s: "\<exists>c'. searchForZero junk buf c e = Some c' \<and> (live c' \<or> sint (ind c') = - 1)"
  proof -
    obtain n where c: "c = cursor_of n" using cursor_of_number_of[OF assms(5)] by metis
    show ?thesis
      unfolding c
      by (cases rule: searchForZero_cases[of n e junk buf]) (auto simp: live_cursor_of)
  qed
  have f: "findLoop junk endsqrt e buf (d\<lparr>ind := - 1\<rparr>) = Some buf"
    by (subst findLoop.simps) simp
  have p: "printLoop junk buf e file (d\<lparr>ind := - 1\<rparr>) = Some file"
    by (subst printLoop.simps) simp
  have l: "live \<lparr>current = 0, pointind = 0, ind = 2\<rparr>" "live \<lparr>current = 0, pointind = 0, ind = 0\<rparr>"
    by (simp_all add: live_def)
  from a b s f p l advance_live[OF assms(5)] show ?thesis by blast
qed

theorem bit_offset_stays_in_range_witness:
  "0 \<le> sint (7 :: byte) \<and> sint (7 :: byte) \<le> 7 \<and> 0 \<le> sint (5 :: byte) \<and> sint (5 :: byte) \<le> 7
   \<and> live \<lparr>current = 0, pointind = 0, ind = 7\<rparr>
   \<and> elimInit 1 7 = (28, 1)
   \<and> elimStep 1 7 ([0xCA, 0, 0], 1, 5) = ([0xCA, 4, 0], 3, 4)
   \<and> advance \<lparr>current = 0, pointind = 0, ind = 7\<rparr> = \<lparr>current = 1, pointind = 1, ind = 0\<rparr>
   \<and> live (advance \<lparr>current = 0, pointind = 0, ind = 7\<rparr>)
   \<and> (\<exists>c'. searchForZero (\<lambda>_. 0) [0xCA, 0, 0] \<lparr>current = 0, pointind = 0, ind = 7\<rparr> 3 = Some c'
          \<and> (live c' \<or> sint (ind c') = - 1))"
proof -
  have h: "0 \<le> sint (7 :: byte)" "sint (7 :: byte) \<le> 7" "0 \<le> sint (5 :: byte)" "sint (5 :: byte) \<le> 7"
    "live \<lparr>current = 0, pointind = 0, ind = 7\<rparr>"
    by (simp_all add: live_def)
  have ev: "elimInit 1 7 = (28, 1)" "elimStep 1 7 ([0xCA, 0, 0], 1, 5) = ([0xCA, 4, 0], 3, 4)"
    "advance \<lparr>current = 0, pointind = 0, ind = 7\<rparr> = \<lparr>current = 1, pointind = 1, ind = 0\<rparr>"
    by code_simp+
  from bit_offset_stays_in_range[where q = 1 and buf = "[0xCA, 0, 0]" and cur = 1
        and junk = "\<lambda>_. 0" and e = 3, OF h] h ev
  show ?thesis by blast
qed

lemma sieve_of_power_3:
  "findPrimes junk (replicate (2 ^ (3 - 3)) 0) (isqrt (2 ^ (3 - 3)) + 1) (2 ^ (3 - 3))
     = searchForZero junk [0xCA] \<lparr>current = 0, pointind = 0, ind = 7\<rparr> 2
         \<bind> findLoop junk 2 1 [0xCA]"
proof -
  have e: "(2::nat) ^ (3 - 3) = 1" "isqrt 1 + 1 = 2" "replicate 1 (0::byte) = [0]"
    by simp_all
  have b: "setToOne (setToOne [0] 0 0) 0 1 = [0xC0]" by code_simp
  have m: "eliminateMults [0xC0] 0 2 1 = Some [0xCA]" "eliminateMults [0xCA] 0 3 1 = Some [0xCA]"
    "eliminateMults [0xCA] 0 5 1 = Some [0xCA]" "eliminateMults [0xCA] 0 7 1 = Some [0xCA]"
    by code_simp+
  have s: "searchForZero junk [0xCA] \<lparr>current = 0, pointind = 0, ind = 2\<rparr> 2
             = Some \<lparr>current = 0, pointind = 0, ind = 3\<rparr>"
    "searchForZero junk [0xCA] \<lparr>current = 0, pointind = 0, ind = 3\<rparr> 2
             = Some \<lparr>current = 0, pointind = 0, ind = 5\<rparr>"
    "searchForZero junk [0xCA] \<lparr>current = 0, pointind = 0, ind = 5\<rparr> 2
             = Some \<lparr>current = 0, pointind = 0, ind = 7\<rparr>"
    by code_simp+
  have "findPrimes junk [0] 2 1 = findLoop junk 2 1 [0xC0] \<lparr>current = 0, pointind = 0, ind = 2\<rparr>"
    by (simp add: findPrimes_def b del: One_nat_def)
  also have "\<dots> = findLoop junk 2 1 [0xCA] \<lparr>current = 0, pointind = 0, ind = 3\<rparr>"
    by (subst findLoop.simps) (simp add: m s del: One_nat_def)
  also have "\<dots> = findLoop junk 2 1 [0xCA] \<lparr>current = 0, pointind = 0, ind = 5\<rparr>"
    by (subst findLoop.simps) (simp add: m s del: One_nat_def)
  also have "\<dots> = findLoop junk 2 1 [0xCA] \<lparr>current = 0, pointind = 0, ind = 7\<rparr>"
    by (subst findLoop.simps) (simp add: m s del: One_nat_def)
  also have "\<dots> = searchForZero junk [0xCA] \<lparr>current = 0, pointind = 0, ind = 7\<rparr> 2
                     \<bind> findLoop junk 2 1 [0xCA]"
    by (subst findLoop.simps) (simp add: m del: One_nat_def)
  finally show ?thesis unfolding e .
qed

text \<open>
  C6, at \<open>P = 3\<close>. The buffer has one byte, and \<open>endsqrt\<close> is two bytes past
  \<open>start\<close>. Whatever the memory behind the buffer holds, the sieve comes to the
  point where 7 has been found and the buffer is \<open>0xCA\<close>, and there calls the
  scanner on the cursor of 7 with \<open>end = endsqrt\<close>: it tests the byte at offset 1,
  behind the buffer. With a zero byte there it returns a live cursor on that byte, with all
  bits set there it runs on to \<open>endsqrt\<close>: what it returns depends on memory that
  is not the program's.
\<close>

theorem scan_past_buffer_at_power_3:
  "isqrt (2 ^ (3 - 3)) + 1 = 2
   \<and> length (replicate (2 ^ (3 - 3)) (0 :: byte)) = 1
   \<and> findPrimes junk (replicate (2 ^ (3 - 3)) 0) (isqrt (2 ^ (3 - 3)) + 1) (2 ^ (3 - 3))
       = searchForZero junk [0xCA] \<lparr>current = 0, pointind = 0, ind = 7\<rparr> 2
           \<bind> findLoop junk 2 1 [0xCA]
   \<and> searchForZero (\<lambda>_. 0) [0xCA] \<lparr>current = 0, pointind = 0, ind = 7\<rparr> 2
       = Some \<lparr>current = 1, pointind = 1, ind = 0\<rparr>
   \<and> searchForZero (\<lambda>_. 0xFF) [0xCA] \<lparr>current = 0, pointind = 0, ind = 7\<rparr> 2
       = Some \<lparr>current = 2, pointind = 2, ind = - 1\<rparr>"
proof -
  have "isqrt (2 ^ (3 - 3)) + 1 = 2" "length (replicate (2 ^ (3 - 3)) (0 :: byte)) = 1"
    "searchForZero (\<lambda>_. 0) [0xCA] \<lparr>current = 0, pointind = 0, ind = 7\<rparr> 2
       = Some \<lparr>current = 1, pointind = 1, ind = 0\<rparr>"
    "searchForZero (\<lambda>_. 0xFF) [0xCA] \<lparr>current = 0, pointind = 0, ind = 7\<rparr> 2
       = Some \<lparr>current = 2, pointind = 2, ind = - 1\<rparr>"
    by code_simp+
  with sieve_of_power_3[of junk] show ?thesis by blast
qed

section \<open>The claim about the output\<close>

lemma primes_below_props:
  "sorted_wrt (<) (primes_below N)" "set (primes_below N) = {p. is_prime p \<and> p < N}"
proof -
  show "sorted_wrt (<) (primes_below N)"
    unfolding primes_below_def by (intro sorted_wrt_filter) (simp add: sorted_wrt_upt)
  show "set (primes_below N) = {p. is_prime p \<and> p < N}"
    unfolding primes_below_def using is_prime_ge2 by auto
qed

text \<open>
  C1. For \<open>P \<ge> 3\<close>, on a zeroed buffer of \<open>2 ^ (P - 3)\<close> bytes, with \<open>end\<close> and
  \<open>endsqrt\<close> as \<open>main\<close> computes them, \<open>findPrimes\<close> returns, and \<open>printPrimes\<close> on the
  buffer it returns writes exactly one line (the decimal number, then a newline) for
  each prime below \<open>2 ^ P\<close>, in strictly ascending order, and nothing else: neither 0
  nor 1, no composite, nothing from \<open>2 ^ P\<close> on. This holds whatever stands in the
  memory behind the buffer (\<open>junk\<close>), which the scanner reads at \<open>P = 3\<close>. A line
  is the number in decimal: it has no newline but its last character, the number
  read from it (\<open>decimal_value\<close>) is the number printed, and so is what \<open>atoi\<close>
  gives for it as long as the number fits an \<open>int\<close>.
\<close>

theorem primes_txt_lists_the_primes:
  assumes "3 \<le> P"
  shows "\<exists>buf'. findPrimes junk (replicate (2 ^ (P - 3)) 0) (isqrt (2 ^ (P - 3)) + 1) (2 ^ (P - 3))
                  = Some buf'
           \<and> printPrimes junk buf' (2 ^ (P - 3)) = Some (concat (map line_of (primes_below (2 ^ P))))
           \<and> sorted_wrt (<) (primes_below (2 ^ P))
           \<and> set (primes_below (2 ^ P)) = {p. is_prime p \<and> p < 2 ^ P}
           \<and> (\<forall>p. line_of p = fmt_int (int p) @ newline \<and> CHR 0x0A \<notin> set (fmt_int (int p))
                  \<and> decimal_value (line_of p) = int p
                  \<and> (p < 2 ^ 31 \<longrightarrow> atoi (line_of p) = int p))"
proof -
  have B: "0 < (2::nat) ^ (P - 3)" by simp
  from sieve_output[OF B endsqrt_covers, of junk] primes_below_props[of "2 ^ P"]
    line_of_one_line decimal_value_line_of atoi_line_of
  show ?thesis unfolding pow8[OF assms] by blast
qed

theorem primes_txt_lists_the_primes_witness:
  "3 \<le> (3::nat)
   \<and> primes_below (2 ^ 3) = [2, 3, 5, 7]
   \<and> concat (map line_of (primes_below (2 ^ 3))) = ''2\<newline>3\<newline>5\<newline>7\<newline>''
   \<and> findPrimes (\<lambda>_. 0xFF) (replicate (2 ^ (3 - 3)) 0) (isqrt (2 ^ (3 - 3)) + 1) (2 ^ (3 - 3))
       = Some [0xCA]
   \<and> printPrimes (\<lambda>_. 0xFF) [0xCA] (2 ^ (3 - 3)) = Some ''2\<newline>3\<newline>5\<newline>7\<newline>''
   \<and> (\<exists>buf'. findPrimes (\<lambda>_. 0xFF) (replicate (2 ^ (3 - 3)) 0) (isqrt (2 ^ (3 - 3)) + 1) (2 ^ (3 - 3))
                  = Some buf'
           \<and> printPrimes (\<lambda>_. 0xFF) buf' (2 ^ (3 - 3)) = Some (concat (map line_of (primes_below (2 ^ 3)))))"
proof -
  have h: "3 \<le> (3::nat)" by simp
  have ev: "primes_below (2 ^ 3) = [2, 3, 5, 7]"
    "concat (map line_of (primes_below (2 ^ 3))) = ''2\<newline>3\<newline>5\<newline>7\<newline>''"
    "findPrimes (\<lambda>_. 0xFF) (replicate (2 ^ (3 - 3)) 0) (isqrt (2 ^ (3 - 3)) + 1) (2 ^ (3 - 3))
       = Some [0xCA]"
    "printPrimes (\<lambda>_. 0xFF) [0xCA] (2 ^ (3 - 3)) = Some ''2\<newline>3\<newline>5\<newline>7\<newline>''"
    by code_simp+
  from primes_txt_lists_the_primes[OF h, of "\<lambda>_. 0xFF"] h ev show ?thesis by blast
qed

section \<open>The claims about the cutoff and about main\<close>

text \<open>
  C4. For \<open>P \<ge> 3\<close>, on the zeroed buffer of \<open>2 ^ (P - 3)\<close> bytes, the sieve of the
  source, whose scanner stops at the byte \<open>endsqrt = floor (sqrt (2 ^ (P - 3))) + 1\<close>,
  and the sieve whose scanner stops at the number \<open>floor (sqrt (2 ^ P)) + 1\<close> both
  return, and return the same buffer; so does the source's sieve with
  \<open>floor (sqrt (2 ^ P)) + 1\<close> taken as the byte \<open>endsqrt\<close>. \<open>printPrimes\<close> on that
  buffer writes the primes below \<open>2 ^ P\<close>: the same buffer, the same file.
\<close>

theorem cutoffs_give_the_same_buffer:
  assumes "3 \<le> P"
  shows "\<exists>buf'. findPrimes junk (replicate (2 ^ (P - 3)) 0) (isqrt (2 ^ (P - 3)) + 1) (2 ^ (P - 3))
                  = Some buf'
           \<and> findPrimesTight junk (replicate (2 ^ (P - 3)) 0) (isqrt (2 ^ P) + 1) (2 ^ (P - 3))
                  = Some buf'
           \<and> findPrimes junk (replicate (2 ^ (P - 3)) 0) (isqrt (2 ^ P) + 1) (2 ^ (P - 3))
                  = Some buf'
           \<and> printPrimes junk buf' (2 ^ (P - 3)) = Some (concat (map line_of (primes_below (2 ^ P))))"
proof -
  let ?B = "(2::nat) ^ (P - 3)"
  have B: "0 < ?B" by simp
  have N: "8 * ?B = 2 ^ P" by (rule pow8[OF assms])
  have t: "8 * ?B \<le> (isqrt (2 ^ P) + 1) * (isqrt (2 ^ P) + 1)"
    using tight_covers[of ?B] unfolding N .
  have t8: "8 * ?B \<le> (8 * (isqrt (2 ^ P) + 1)) * (8 * (isqrt (2 ^ P) + 1))"
  proof -
    have "(isqrt (2 ^ P) + 1) * (isqrt (2 ^ P) + 1)
            \<le> (8 * (isqrt (2 ^ P) + 1)) * (8 * (isqrt (2 ^ P) + 1))"
      by (intro mult_le_mono) simp_all
    with t show ?thesis by (rule order_trans)
  qed
  from sieves_agree[OF B endsqrt_covers t, of junk junk]
  obtain b where b1: "findPrimes junk (replicate ?B 0) (isqrt ?B + 1) ?B = Some b"
    and b2: "findPrimesTight junk (replicate ?B 0) (isqrt (2 ^ P) + 1) ?B = Some b"
    by blast
  from sieves_agree[OF B t8 t, of junk junk] b2
  have b3: "findPrimes junk (replicate ?B 0) (isqrt (2 ^ P) + 1) ?B = Some b" by auto
  from sieve_output[OF B endsqrt_covers, of junk] b1
  have "printPrimes junk b ?B = Some (concat (map line_of (primes_below (2 ^ P))))"
    unfolding N by auto
  with b1 b2 b3 show ?thesis by blast
qed

theorem cutoffs_give_the_same_buffer_witness:
  "3 \<le> (4::nat)
   \<and> isqrt (2 ^ (4 - 3)) + 1 = 2 \<and> isqrt (2 ^ 4) + 1 = 5
   \<and> findPrimes (\<lambda>_. 0) (replicate (2 ^ (4 - 3)) 0) (isqrt (2 ^ (4 - 3)) + 1) (2 ^ (4 - 3))
        = Some [0xCA, 0xEB]
   \<and> findPrimesTight (\<lambda>_. 0) (replicate (2 ^ (4 - 3)) 0) (isqrt (2 ^ 4) + 1) (2 ^ (4 - 3))
        = Some [0xCA, 0xEB]
   \<and> (\<exists>buf'. findPrimes (\<lambda>_. 0) (replicate (2 ^ (4 - 3)) 0) (isqrt (2 ^ (4 - 3)) + 1) (2 ^ (4 - 3))
                  = Some buf'
           \<and> findPrimesTight (\<lambda>_. 0) (replicate (2 ^ (4 - 3)) 0) (isqrt (2 ^ 4) + 1) (2 ^ (4 - 3))
                  = Some buf')"
proof -
  have h: "3 \<le> (4::nat)" by simp
  have ev: "isqrt (2 ^ (4 - 3)) + 1 = 2" "isqrt (2 ^ 4) + 1 = 5"
    "findPrimes (\<lambda>_. 0) (replicate (2 ^ (4 - 3)) 0) (isqrt (2 ^ (4 - 3)) + 1) (2 ^ (4 - 3))
        = Some [0xCA, 0xEB]"
    "findPrimesTight (\<lambda>_. 0) (replicate (2 ^ (4 - 3)) 0) (isqrt (2 ^ 4) + 1) (2 ^ (4 - 3))
        = Some [0xCA, 0xEB]"
    by code_simp+
  from cutoffs_give_the_same_buffer[OF h, of "\<lambda>_. 0"] h ev show ?thesis by blast
qed

text \<open>
  C8, as stated, fails twice. Without an argument the run writes \<open>power = 20\<close> to the
  error stream and nothing else: exactly what the run with the argument \<open>20\<close>
  writes, so no diagnostic tells the fallback. And the argument \<open>3x\<close>, which is not
  a number, does not lead to \<open>P = 20\<close>: \<open>atoi\<close> reads it as 3, and the file holds the
  primes below 8, which is not the file of the run with \<open>20\<close>.
\<close>

theorem fallback_counterexample:
  "main zeroes True True [''primes''] =
     Some \<lparr>stderr = ''power = 20'' @ newline,
           primes_txt = Some (concat (map line_of (primes_below (2 ^ 20)))), status = 0\<rparr>
   \<and> main zeroes True True [''primes'', ''20''] =
     Some \<lparr>stderr = ''power = 20'' @ newline,
           primes_txt = Some (concat (map line_of (primes_below (2 ^ 20)))), status = 0\<rparr>
   \<and> main zeroes True True [''primes'', ''3x''] =
     Some \<lparr>stderr = ''power = 3'' @ newline,
           primes_txt = Some ''2\<newline>3\<newline>5\<newline>7\<newline>'', status = 0\<rparr>
   \<and> concat (map line_of (primes_below (2 ^ 20))) \<noteq> ''2\<newline>3\<newline>5\<newline>7\<newline>''"
proof -
  have a: "main zeroes True True [''primes''] =
     Some \<lparr>stderr = ''power = 20'' @ newline,
           primes_txt = Some (concat (map line_of (primes_below (2 ^ 20)))), status = 0\<rparr>"
    using main_fallback[of "[''primes'']" zeroes] by simp
  have b: "main zeroes True True [''primes'', ''3x''] =
     Some \<lparr>stderr = ''power = 3'' @ newline,
           primes_txt = Some ''2\<newline>3\<newline>5\<newline>7\<newline>'', status = 0\<rparr>"
    by code_simp
  have c: "(12::nat) \<le> 2 ^ 20" by simp
  from a main_20[of zeroes "''primes''"] b output_differs[OF c] show ?thesis by blast
qed

text \<open>
  C8, amended. Whenever the number of arguments is not one (\<open>argc \<noteq> 2\<close>), or the one
  argument is read by \<open>atoi\<close> as an integer below 3, the run uses \<open>P = 20\<close>: with
  memory and file available it ends with status 0, the file holds the primes below
  \<open>2 ^ 20\<close>, and the error stream holds the line \<open>power = 20\<close>, after the line
  \<open>Invalid value for power\<close> in the second case only. The run with the argument
  \<open>20\<close> gives the same file and status and the line \<open>power = 20\<close> alone; file and
  status agree with that run also when the allocation or the opening of the file
  fails. An argument that is empty, or whose first character is neither white
  space nor a sign nor a digit, is read by \<open>atoi\<close> as 0, so it is one of those read
  below 3.
\<close>

theorem main_falls_back_to_20:
  assumes "length argv \<noteq> 2 \<or> atoi (argv ! 1) < 3"
  shows "main junk True True argv =
           Some \<lparr>stderr = (if length argv \<noteq> 2 then [] else ''Invalid value for power'' @ newline)
                             @ ''power = 20'' @ newline,
                 primes_txt = Some (concat (map line_of (primes_below (2 ^ 20)))),
                 status = 0\<rparr>
         \<and> main junk True True [a0, ''20''] =
           Some \<lparr>stderr = ''power = 20'' @ newline,
                 primes_txt = Some (concat (map line_of (primes_below (2 ^ 20)))),
                 status = 0\<rparr>
         \<and> map_option primes_txt (main junk co fo argv)
             = map_option primes_txt (main junk co fo [a0, ''20''])
         \<and> map_option status (main junk co fo argv)
             = map_option status (main junk co fo [a0, ''20''])
         \<and> (s = [] \<or> \<not> (isspace (hd s) \<or> isdigit (hd s) \<or> hd s = CHR ''-'' \<or> hd s = CHR ''+'')
               \<longrightarrow> atoi s = 0)"
  using main_fallback[OF assms, of junk] main_20[of junk a0]
    main_fallback_file[OF assms, of junk co fo a0] decimal_value_no_number(2)[of s]
  by blast

theorem main_falls_back_to_20_witness:
  "atoi ''foo'' = 0 \<and> atoi ''2'' = 2 \<and> atoi ''4294967298'' = 2 \<and> atoi ''-4294967293'' = 3
   \<and> atoi '' 42'' = 42 \<and> length [''primes'', ''foo''] = 2
   \<and> main zeroes True True [''primes'', ''foo''] =
           Some \<lparr>stderr = ''Invalid value for power'' @ newline @ ''power = 20'' @ newline,
                 primes_txt = Some (concat (map line_of (primes_below (2 ^ 20)))),
                 status = 0\<rparr>
   \<and> main zeroes True True [''primes'', ''4294967298''] =
           Some \<lparr>stderr = ''Invalid value for power'' @ newline @ ''power = 20'' @ newline,
                 primes_txt = Some (concat (map line_of (primes_below (2 ^ 20)))),
                 status = 0\<rparr>
   \<and> main zeroes True True [''primes'', ''20''] =
           Some \<lparr>stderr = ''power = 20'' @ newline,
                 primes_txt = Some (concat (map line_of (primes_below (2 ^ 20)))),
                 status = 0\<rparr>"
proof -
  have ev: "atoi ''foo'' = 0" "atoi ''2'' = 2" "atoi ''4294967298'' = 2"
    "atoi ''-4294967293'' = 3" "atoi '' 42'' = 42"
    by code_simp+
  then have h: "length [''primes'', ''foo''] \<noteq> 2 \<or> atoi ([''primes'', ''foo''] ! 1) < 3"
    "length [''primes'', ''4294967298''] \<noteq> 2 \<or> atoi ([''primes'', ''4294967298''] ! 1) < 3"
    by simp_all
  from main_falls_back_to_20[OF h(1), of zeroes "''primes''" True True]
    main_falls_back_to_20[OF h(2), of zeroes "''primes''" True True] ev
  show ?thesis by simp
qed

section \<open>The cutoff from power 4 on\<close>

lemma isqrt_less:
  assumes "2 \<le> B"
  shows "isqrt B + 1 \<le> B"
proof (rule ccontr)
  assume "\<not> isqrt B + 1 \<le> B"
  then have "B \<le> isqrt B" by simp
  then have "B * B \<le> isqrt B * isqrt B" by (intro mult_le_mono)
  moreover have "isqrt B * isqrt B \<le> B" using isqrt_bounds[of B] by blast
  ultimately have "B * B \<le> B" by (rule order_trans)
  then have "B * B \<le> B * 1" by simp
  then have "0 < B \<longrightarrow> B \<le> 1" by (simp only: mult_le_cancel1)
  with assms show False by simp
qed

text \<open>
  From \<open>P = 4\<close> on, \<open>endsqrt\<close> as \<open>main\<close> computes it is not behind \<open>end\<close>: the
  scanner of the sieving phase, which reads only bytes before \<open>endsqrt\<close>, stays
  inside the buffer.
\<close>

theorem endsqrt_inside_from_power_4:
  assumes "4 \<le> P"
  shows "isqrt (2 ^ (P - 3)) + 1 \<le> 2 ^ (P - 3)"
proof -
  from assms have "1 \<le> P - 3" by simp
  then have "(2::nat) ^ 1 \<le> 2 ^ (P - 3)" by (intro power_increasing) simp_all
  then have "2 \<le> (2::nat) ^ (P - 3)" by simp
  then show ?thesis by (rule isqrt_less)
qed

theorem endsqrt_inside_from_power_4_witness:
  "4 \<le> (4::nat) \<and> isqrt (2 ^ (4 - 3)) + 1 = 2 \<and> isqrt (2 ^ (4 - 3)) + 1 \<le> 2 ^ (4 - 3)"
proof -
  have h: "4 \<le> (4::nat)" by simp
  have ev: "isqrt (2 ^ (4 - 3)) + 1 = 2" by code_simp
  from endsqrt_inside_from_power_4[OF h] h ev show ?thesis by blast
qed

end
